theory Spec2Isabelle
  imports Complex_Main "HOL-Library.Word"
begin

section \<open>Values shared by the embedded classes\<close>

text \<open>
  A C++ \<^verbatim>\<open>double\<close> (also used for \<^verbatim>\<open>float\<close> pixels): the finite values are
  reals, the two infinities and NaN are values of their own. Only the comparisons of the
  language are modelled, and they follow IEEE 754: every comparison with NaN is false.
  The two zeros compare equal, so one \<open>Finite 0\<close> stands for both.
\<close>

datatype double = NaN | NegInf | PosInf | Finite real

instantiation double :: ord
begin

fun less_eq_double :: "double \<Rightarrow> double \<Rightarrow> bool" where
  "less_eq_double NaN _ = False"
| "less_eq_double _ NaN = False"
| "less_eq_double NegInf _ = True"
| "less_eq_double _ PosInf = True"
| "less_eq_double PosInf _ = False"
| "less_eq_double _ NegInf = False"
| "less_eq_double (Finite a) (Finite b) = (a \<le> b)"

fun less_double :: "double \<Rightarrow> double \<Rightarrow> bool" where
  "less_double NaN _ = False"
| "less_double _ NaN = False"
| "less_double PosInf _ = False"
| "less_double _ NegInf = False"
| "less_double NegInf _ = True"
| "less_double _ PosInf = True"
| "less_double (Finite a) (Finite b) = (a < b)"

instance ..

end

text \<open>
  \<^verbatim>\<open>itkExceptionMacro\<close> and \<^verbatim>\<open>itkGenericExceptionMacro\<close> throw an
  \<^verbatim>\<open>itk::ExceptionObject\<close> carrying a description. A member function that can throw
  returns the exception (or \<open>None\<close>) together with the object as the throw leaves it.
\<close>

datatype exception = ExceptionObject string

text \<open>
  \<^verbatim>\<open>itk::Object\<close>: the modification time every filter and spatial object inherits.
  Modelled from the spec: \<^verbatim>\<open>Object::Modified()\<close> is not among the sources; the
  specification says that it "advances the object's timestamp to the next global clock
  value". The process-wide clock is passed in and returned.
\<close>

record Object =
  m_MTime :: nat

definition Modified :: "nat \<Rightarrow> 'a Object_scheme \<Rightarrow> 'a Object_scheme \<times> nat" where
  "Modified clock this = (this\<lparr>m_MTime := Suc clock\<rparr>, Suc clock)"

section \<open>GaussianOperator (itkGaussianOperator.h)\<close>

record GaussianOperator =
  m_Variance :: double
  m_MaximumError :: double
  m_MaximumKernelWidth :: "32 word"
  m_Debug :: bool

text \<open>
  The member initialisers of the class: variance 1, maximum error .01, width 30. The
  literal \<^verbatim>\<open>.01\<close> is the double nearest to one hundredth,
  \<open>5764607523034235 / 2 ^ 59\<close>.
\<close>

definition GaussianOperator_new :: GaussianOperator where
  "GaussianOperator_new =
     \<lparr>m_Variance = Finite 1, m_MaximumError = Finite (5764607523034235 / 2 ^ 59),
      m_MaximumKernelWidth = 30, m_Debug = False\<rparr>"

definition SetVariance :: "double \<Rightarrow> GaussianOperator \<Rightarrow> GaussianOperator" where
  "SetVariance variance this = this\<lparr>m_Variance := variance\<rparr>"

definition SetMaximumError ::
  "double \<Rightarrow> GaussianOperator \<Rightarrow> exception option \<times> GaussianOperator" where
  "SetMaximumError max_error this =
     (if max_error \<ge> Finite 1 \<or> max_error \<le> Finite 0
      then (Some (ExceptionObject ''Maximum Error Must be in the range [ 0.0 , 1.0 ]''), this)
      else (None, this\<lparr>m_MaximumError := max_error\<rparr>))"

definition GetMaximumError :: "GaussianOperator \<Rightarrow> double" where
  "GetMaximumError this = m_MaximumError this"

section \<open>ClampImageFilter (itkClampImageFilter.hxx)\<close>

text \<open>
  \<^verbatim>\<open>NumericTraits<OutputPixelType>\<close> is declared outside the sources; its two members
  the filter reads are parameters of the model. The pixel type is any type with the
  comparisons \<open><\<close> and \<open>\<le>\<close>: an integer type, or \<^typ>\<open>double\<close>.
\<close>

record 'p NumericTraits =
  NonpositiveMin :: 'p
  max_value :: 'p

record 'p Clamp =
  m_LowerBound :: 'p
  m_UpperBound :: 'p

definition Clamp_new :: "'p NumericTraits \<Rightarrow> 'p Clamp" where
  "Clamp_new traits = \<lparr>m_LowerBound = NonpositiveMin traits, m_UpperBound = max_value traits\<rparr>"

definition Clamp_GetLowerBound :: "'p Clamp \<Rightarrow> 'p" where
  "Clamp_GetLowerBound this = m_LowerBound this"

definition Clamp_GetUpperBound :: "'p Clamp \<Rightarrow> 'p" where
  "Clamp_GetUpperBound this = m_UpperBound this"

text \<open>The description streams the two bounds after the text kept here.\<close>

definition Clamp_SetBounds :: "'p::ord \<Rightarrow> 'p \<Rightarrow> 'p Clamp \<Rightarrow> exception + 'p Clamp" where
  "Clamp_SetBounds lowerBound upperBound this =
     (if lowerBound > upperBound then Inl (ExceptionObject ''invalid bounds: ['')
      else Inr (this\<lparr>m_LowerBound := lowerBound, m_UpperBound := upperBound\<rparr>))"

text \<open>
  Modelled from the spec: the functor's call operator is declared in
  \<^verbatim>\<open>itkClampImageFilter.h\<close>, which is not among the sources, and the specification
  leaves the pixel mathematics to the functor. It is taken as clamping in the usual
  sense: a value below the lower bound becomes the lower bound, a value above the upper
  bound becomes the upper bound, every other value is kept.
\<close>

definition Clamp_call :: "'p::ord Clamp \<Rightarrow> 'p \<Rightarrow> 'p" where
  "Clamp_call this A =
     (if A < m_LowerBound this then m_LowerBound this
      else if A > m_UpperBound this then m_UpperBound this
      else A)"

text \<open>
  The filter, for an input and an output image of the same pixel type (the only
  instances that can run in place). \<open>m_InPlace\<close> and the answer of
  \<^verbatim>\<open>CanRunInPlace()\<close> belong to \<^verbatim>\<open>InPlaceImageFilter\<close>, outside the sources.
\<close>

record 'p ClampImageFilter = Object +
  m_Functor :: "'p Clamp"
  m_InPlace :: bool
  m_CanRunInPlace :: bool

definition GetFunctor :: "'p ClampImageFilter \<Rightarrow> 'p Clamp" where
  "GetFunctor this = m_Functor this"

definition GetInPlace :: "'p ClampImageFilter \<Rightarrow> bool" where
  "GetInPlace this = m_InPlace this"

definition CanRunInPlace :: "'p ClampImageFilter \<Rightarrow> bool" where
  "CanRunInPlace this = m_CanRunInPlace this"

definition GetLowerBound :: "'p ClampImageFilter \<Rightarrow> 'p" where
  "GetLowerBound this = Clamp_GetLowerBound (GetFunctor this)"

definition GetUpperBound :: "'p ClampImageFilter \<Rightarrow> 'p" where
  "GetUpperBound this = Clamp_GetUpperBound (GetFunctor this)"

text \<open>
  Modelled from the spec: \<^verbatim>\<open>Math::ExactlyEquals\<close> (itkMath.h) is not among the
  sources; it is the comparison \<^verbatim>\<open>==\<close> of the two values. For the values of a
  pixel type \<^verbatim>\<open>a == b\<close> holds exactly when \<open>a \<le> b\<close> and \<open>b \<le> a\<close>: equality for
  an integer type, and for \<^typ>\<open>double\<close> the comparison under which NaN differs from
  itself.
\<close>

definition ExactlyEquals :: "'p::ord \<Rightarrow> 'p \<Rightarrow> bool" where
  "ExactlyEquals a b = (a \<le> b \<and> b \<le> a)"

text \<open>
  \<^verbatim>\<open>ClampImageFilter::SetBounds\<close>: the result is the exception thrown (if any), the
  filter and the clock. A throw of the functor's \<^verbatim>\<open>SetBounds\<close> leaves the function
  before \<^verbatim>\<open>Modified()\<close>.
\<close>

definition SetBounds ::
  "'p::ord \<Rightarrow> 'p \<Rightarrow> nat \<Rightarrow> 'p ClampImageFilter \<Rightarrow> exception option \<times> 'p ClampImageFilter \<times> nat" where
  "SetBounds lowerBound upperBound clock this =
     (if ExactlyEquals lowerBound (Clamp_GetLowerBound (GetFunctor this)) \<and>
         ExactlyEquals upperBound (Clamp_GetUpperBound (GetFunctor this))
      then (None, this, clock)
      else (case Clamp_SetBounds lowerBound upperBound (GetFunctor this) of
              Inl e \<Rightarrow> (Some e, this, clock)
            | Inr functor \<Rightarrow>
                (case Modified clock (this\<lparr>m_Functor := functor\<rparr>) of
                   (this', clock') \<Rightarrow> (None, this', clock'))))"

text \<open>
  Images are the pixels of the buffer in raster order.
  Modelled from the spec: \<^verbatim>\<open>AllocateOutputs\<close> and the superclass's
  \<^verbatim>\<open>GenerateData\<close> are not among the sources. Following the comment in
  \<^verbatim>\<open>ClampImageFilter::GenerateData\<close>, allocating the outputs of a filter that runs in
  place grafts the input to the output; the superclass applies the functor to every
  pixel.
\<close>

definition AllocateOutputs :: "'p ClampImageFilter \<Rightarrow> 'p list \<Rightarrow> 'p list" where
  "AllocateOutputs this input = input"

definition Superclass_GenerateData :: "'p::ord ClampImageFilter \<Rightarrow> 'p list \<Rightarrow> 'p list" where
  "Superclass_GenerateData this input = map (Clamp_call (GetFunctor this)) input"

definition GenerateData ::
  "'p::ord NumericTraits \<Rightarrow> 'p ClampImageFilter \<Rightarrow> 'p list \<Rightarrow> 'p list" where
  "GenerateData traits this input =
     (if GetInPlace this \<and> CanRunInPlace this \<and>
         GetLowerBound this \<le> NonpositiveMin traits \<and>
         GetUpperBound this \<ge> max_value traits
      then AllocateOutputs this input
      else Superclass_GenerateData this input)"

text \<open>
  A filter as its constructor and the defaults of \<^verbatim>\<open>InPlaceImageFilter\<close> leave it:
  bounds at the limits of the pixel type, in-place operation requested.
\<close>

definition ClampImageFilter_new :: "'p NumericTraits \<Rightarrow> nat \<Rightarrow> 'p ClampImageFilter" where
  "ClampImageFilter_new traits t =
     \<lparr>m_MTime = t, m_Functor = Clamp_new traits, m_InPlace = True, m_CanRunInPlace = True\<rparr>"

text \<open>The limits of \<^verbatim>\<open>unsigned char\<close> and of \<^verbatim>\<open>double\<close>.\<close>

definition uchar_traits :: "8 word NumericTraits" where
  "uchar_traits = \<lparr>NonpositiveMin = 0, max_value = 255\<rparr>"

definition DBL_MAX :: real where
  "DBL_MAX = (2 - 1 / 2 ^ 52) * 2 ^ 1023"

definition double_traits :: "double NumericTraits" where
  "double_traits = \<lparr>NonpositiveMin = Finite (- DBL_MAX), max_value = Finite DBL_MAX\<rparr>"

section \<open>MeshSpatialObject (itkMeshSpatialObject.hxx)\<close>

text \<open>
  \<open>m_Mesh\<close> is a smart pointer; \<^verbatim>\<open>SetMesh\<close> compares and stores the pointer, so a
  mesh is its address, and \<open>None\<close> is the null pointer. The modification times of the
  meshes live in a store from addresses to times.
\<close>

record MeshSpatialObject = Object +
  m_Mesh :: "nat option"
  m_IsInsidePrecisionInObjectSpace :: double

definition SetMesh ::
  "nat option \<Rightarrow> nat \<Rightarrow> MeshSpatialObject \<Rightarrow> MeshSpatialObject \<times> nat" where
  "SetMesh mesh clock this =
     (if m_Mesh this \<noteq> mesh then Modified clock (this\<lparr>m_Mesh := mesh\<rparr>)
      else (this, clock))"

definition GetMesh :: "MeshSpatialObject \<Rightarrow> nat option" where
  "GetMesh this = m_Mesh this"

text \<open>
  Modelled from the spec: \<^verbatim>\<open>Superclass::GetMTime()\<close>, of the spatial object, is not
  among the sources; it is taken as the modification time that \<^verbatim>\<open>Modified()\<close>
  stamps on the object.
\<close>

definition Superclass_GetMTime :: "MeshSpatialObject \<Rightarrow> nat" where
  "Superclass_GetMTime this = m_MTime this"

text \<open>
  \<^verbatim>\<open>GetMTime\<close> starts from the time of the superclass and calls
  \<^verbatim>\<open>m_Mesh->GetMTime()\<close>: with a null \<open>m_Mesh\<close> the call dereferences a null
  pointer and there is no result.
\<close>

definition GetMTime :: "(nat \<Rightarrow> nat) \<Rightarrow> MeshSpatialObject \<Rightarrow> nat option" where
  "GetMTime mesh_times this =
     (case m_Mesh this of
        None \<Rightarrow> None
      | Some mesh \<Rightarrow>
          (let latestMTime = Superclass_GetMTime this; MeshMTime = mesh_times mesh
           in Some (if MeshMTime > latestMTime then MeshMTime else latestMTime)))"

section \<open>The streaming test (itkMetaImageStreamingWriterIOTest.cxx)\<close>

text \<open>
  The test reads a three-dimensional image of \<^verbatim>\<open>unsigned char\<close> pixels piece by
  piece and writes every piece as soon as it is read. An index is a triple of signed
  values, a size a triple of unsigned values, a region an index with a size.
  \<^verbatim>\<open>IndexValueType\<close> and \<^verbatim>\<open>SizeValueType\<close> are declared outside the sources; they
  are taken as the 64-bit \<^verbatim>\<open>long\<close> and \<^verbatim>\<open>unsigned long\<close>, \<^verbatim>\<open>unsigned int\<close> as
  32 bits. Values are integers and naturals, with each conversion the test performs
  written out.
\<close>

type_synonym PixelType = "8 word"
type_synonym IndexType = "int \<times> int \<times> int"
type_synonym SizeType = "nat \<times> nat \<times> nat"

record ImageRegion =
  m_Index :: IndexType
  m_Size :: SizeType

text \<open>The lattice points of a region, and its pixels in raster order (first axis fastest).\<close>

definition IsInside :: "ImageRegion \<Rightarrow> IndexType \<Rightarrow> bool" where
  "IsInside region p =
     (case (m_Index region, m_Size region, p) of
        ((i0, i1, i2), (s0, s1, s2), (x, y, z)) \<Rightarrow>
          i0 \<le> x \<and> x < i0 + int s0 \<and> i1 \<le> y \<and> y < i1 + int s1 \<and>
          i2 \<le> z \<and> z < i2 + int s2)"

definition span :: "int \<Rightarrow> nat \<Rightarrow> int list" where
  "span i n = map (\<lambda>k. i + int k) [0..<n]"

definition region_pixels :: "(IndexType \<Rightarrow> 'a) \<Rightarrow> ImageRegion \<Rightarrow> 'a list" where
  "region_pixels img region =
     (case (m_Index region, m_Size region) of
        ((i0, i1, i2), (s0, s1, s2)) \<Rightarrow>
          concat (map (\<lambda>z. concat (map (\<lambda>y. map (\<lambda>x. img (x, y, z)) (span i0 s0))
                                   (span i1 s1)))
                      (span i2 s2)))"

definition to_IndexValueType :: "int \<Rightarrow> int" where
  "to_IndexValueType v = (v + 2 ^ 63) mod 2 ^ 64 - 2 ^ 63"

definition to_SizeValueType :: "int \<Rightarrow> nat" where
  "to_SizeValueType v = nat (v mod 2 ^ 64)"

definition to_unsigned_int :: "nat \<Rightarrow> nat" where
  "to_unsigned_int v = v mod 2 ^ 32"

definition z_extent :: "ImageRegion \<Rightarrow> nat" where
  "z_extent region = snd (snd (m_Size region))"

datatype exit_code = EXIT_SUCCESS | EXIT_FAILURE

text \<open>
  What the test does not define itself: the pixels of the image in the file, and which
  updates of the reader and of the writer throw.
\<close>

record io =
  stored_image :: "IndexType \<Rightarrow> PixelType"
  reader_throws :: "ImageRegion \<Rightarrow> bool"
  writer_throws :: "ImageRegion \<Rightarrow> bool"

type_synonym written = "(ImageRegion \<times> PixelType list) list"

text \<open>
  Modelled from the spec: \<^verbatim>\<open>ImageFileReader::Update\<close> and
  \<^verbatim>\<open>ImageFileWriter::Update\<close> are not among the sources. Following the specification
  of the streaming controller, an update of the reader fills its buffer with the pixels
  of the requested region, and an update of the writer commits the buffer for its IO
  region behind what it has already written.
\<close>

definition reader_Update :: "io \<Rightarrow> ImageRegion \<Rightarrow> exception + PixelType list" where
  "reader_Update env region =
     (if reader_throws env region then Inl (ExceptionObject ''ImageFileReader'')
      else Inr (region_pixels (stored_image env) region))"

definition writer_Update ::
  "io \<Rightarrow> ImageRegion \<Rightarrow> PixelType list \<Rightarrow> written \<Rightarrow> exception + written" where
  "writer_Update env ioregion buffer file =
     (if writer_throws env ioregion then Inl (ExceptionObject ''ImageFileWriter'')
      else Inr (file @ [(ioregion, buffer)]))"

text \<open>
  The \<^verbatim>\<open>for\<close> loop of the test. Its state is the counter \<open>i\<close>, \<open>index[2]\<close>,
  \<open>size[2]\<close> and the file written so far; \<open>index[0]\<close>, \<open>index[1]\<close> stay zero and
  \<open>size[0]\<close>, \<open>size[1]\<close> stay those of the full size. A caught exception ends the test
  with \<^verbatim>\<open>EXIT_FAILURE\<close>. The counter is an \<^verbatim>\<open>unsigned int\<close> that stays below the
  number of pieces; it is a natural number here, which is right for fewer than
  \<open>2 ^ 32\<close> pieces.
\<close>

function pieces_loop ::
  "io \<Rightarrow> SizeType \<Rightarrow> nat \<Rightarrow> nat \<Rightarrow> nat \<Rightarrow> int \<Rightarrow> nat \<Rightarrow> written \<Rightarrow> exit_code \<times> written" where
  "pieces_loop env (f0, f1, f2) numberOfPieces zsize i index2 size2 file =
     (if i < numberOfPieces then
        (let index2' = to_IndexValueType (index2 + int size2);
             size2' = (if i = numberOfPieces - 1 then to_SizeValueType (int f2 - index2')
                       else zsize);
             region = \<lparr>m_Index = (0, 0, index2'), m_Size = (f0, f1, size2')\<rparr>
         in case reader_Update env region of
              Inl ex \<Rightarrow> (EXIT_FAILURE, file)
            | Inr buffer \<Rightarrow>
                (case writer_Update env region buffer file of
                   Inl err \<Rightarrow> (EXIT_FAILURE, file)
                 | Inr file' \<Rightarrow>
                     pieces_loop env (f0, f1, f2) numberOfPieces zsize (Suc i) index2' size2' file'))
      else (EXIT_SUCCESS, file))"
  by pat_completeness auto
termination
  by (relation "measure (\<lambda>(env, fullsize, numberOfPieces, zsize, i, rest). numberOfPieces - i)")
    auto

text \<open>
  The test from the point where the reader's output information is known. The number of
  pieces asked for, 10 in the test, is a parameter. With a full size of zero slices the
  number of pieces is zero and the division that computes \<open>zsize\<close> is undefined: the
  test has no result then.
\<close>

definition streaming_test :: "nat \<Rightarrow> io \<Rightarrow> SizeType \<Rightarrow> (exit_code \<times> written) option" where
  "streaming_test pieces env fullsize =
     (case fullsize of (f0, f1, f2) \<Rightarrow>
        (let numberOfPieces = min pieces f2
         in if numberOfPieces = 0 then None
            else Some (pieces_loop env fullsize numberOfPieces
                         (to_unsigned_int (f2 div numberOfPieces)) 0 0 0 [])))"

definition itkMetaImageStreamingWriterIOTest :: "io \<Rightarrow> SizeType \<Rightarrow> (exit_code \<times> written) option" where
  "itkMetaImageStreamingWriterIOTest env fullsize = streaming_test 10 env fullsize"

text \<open>
  The \<open>j\<close>-th of \<open>n\<close> slabs of thickness \<open>z\<close> stacked along the last axis, the last
  slab taking what is left of the full size; and the full region.
\<close>

definition slab :: "SizeType \<Rightarrow> nat \<Rightarrow> nat \<Rightarrow> nat \<Rightarrow> ImageRegion" where
  "slab fullsize n z j =
     (case fullsize of (f0, f1, f2) \<Rightarrow>
        \<lparr>m_Index = (0, 0, int (j * z)),
         m_Size = (f0, f1, if j = n - 1 then f2 - j * z else z)\<rparr>)"

definition full_region :: "SizeType \<Rightarrow> ImageRegion" where
  "full_region fullsize = \<lparr>m_Index = (0, 0, 0), m_Size = fullsize\<rparr>"

text \<open>
  Modelled from the spec: "computing the full region in one non-streamed update" is one
  update of the reader for the full region and one update of the writer.
\<close>

definition non_streamed :: "io \<Rightarrow> SizeType \<Rightarrow> exit_code \<times> written" where
  "non_streamed env fullsize =
     (let region = full_region fullsize
      in case reader_Update env region of
           Inl ex \<Rightarrow> (EXIT_FAILURE, [])
         | Inr buffer \<Rightarrow>
             (case writer_Update env region buffer [] of
                Inl err \<Rightarrow> (EXIT_FAILURE, [])
              | Inr file \<Rightarrow> (EXIT_SUCCESS, file)))"

definition file_bytes :: "written \<Rightarrow> PixelType list" where
  "file_bytes file = concat (map snd file)"

definition ramp :: "IndexType \<Rightarrow> PixelType" where
  "ramp p = (case p of (x, y, z) \<Rightarrow> of_int (x + 2 * y + 4 * z))"

definition quiet_ramp :: io where
  "quiet_ramp = \<lparr>stored_image = ramp, reader_throws = (\<lambda>r. False), writer_throws = (\<lambda>r. False)\<rparr>"

section \<open>Regions, data objects, stages and the update protocol (specification)\<close>

text \<open>
  Modelled from the spec: the data object, the pipeline stage and the update coordinator
  are classes of the toolkit that are not among the sources (the sources hold stages that
  rely on them). Every definition of this section follows sections 3 and 4 of the
  specification.

  Modelled from the spec: a region is an origin and an extent per axis. A region with an
  extent of zero (or less) on some axis has no point, and neither has the region without
  axes that a data object holds when it is created. \<open>contains\<close> is containment of the
  points, decided axis by axis; \<open>intersect\<close> gives the common part, with extent zero where
  the two regions do not meet (and for regions of different dimension, which share no
  point).
\<close>

record Region =
  origin :: "int list"
  extent :: "int list"

definition axes :: "Region \<Rightarrow> (int \<times> int) list" where
  "axes r = zip (origin r) (extent r)"

definition region_empty :: "Region \<Rightarrow> bool" where
  "region_empty r = (extent r = [] \<or> list_ex (\<lambda>e. e \<le> 0) (extent r))"

definition axis_within :: "int \<times> int \<Rightarrow> int \<times> int \<Rightarrow> bool" where
  "axis_within outer inner =
     (fst outer \<le> fst inner \<and> fst inner + snd inner \<le> fst outer + snd outer)"

definition contains :: "Region \<Rightarrow> Region \<Rightarrow> bool" where
  "contains outer inner =
     (region_empty inner \<or> list_all2 axis_within (axes outer) (axes inner))"

definition axis_intersect :: "int \<times> int \<Rightarrow> int \<times> int \<Rightarrow> int \<times> int" where
  "axis_intersect a b =
     (let lo = max (fst a) (fst b); hi = min (fst a + snd a) (fst b + snd b)
      in (lo, max 0 (hi - lo)))"

definition same_dimension :: "Region \<Rightarrow> Region \<Rightarrow> bool" where
  "same_dimension a b =
     (length (origin a) = length (extent a) \<and> length (origin b) = length (extent b) \<and>
      length (origin a) = length (origin b))"

definition intersect :: "Region \<Rightarrow> Region \<Rightarrow> Region" where
  "intersect a b =
     (if same_dimension a b
      then \<lparr>origin = map fst (map2 axis_intersect (axes a) (axes b)),
            extent = map snd (map2 axis_intersect (axes a) (axes b))\<rparr>
      else \<lparr>origin = origin a, extent = map (\<lambda>e. 0) (origin a)\<rparr>)"

text \<open>
  Modelled from the spec: sections 3 and 4.1. A data object holds its largest possible,
  buffered and requested regions, its modification time and its pipeline time.
  \<open>setRequestedRegion\<close> fails with \<open>InvalidRegionError\<close> for a region that the largest
  possible region does not contain. Section 3 states that the requested region lies
  within the largest possible region as an invariant of the data object, and section 4.1
  gives \<open>setLargestPossibleRegion\<close> no way to fail: the setter stores the region and
  keeps the invariant by cutting the requested region down to it.
  \<open>setBufferedRegion\<close> stores the region (the buffer itself is not modelled). A data
  object is created empty.
\<close>

datatype pipeline_error = ConfigurationError | InvalidRegionError | ComputeError

record data_object =
  largest_possible_region :: Region
  buffered_region :: Region
  requested_region :: Region
  modification_time :: nat
  pipeline_time :: nat

definition getLargestPossibleRegion :: "data_object \<Rightarrow> Region" where
  "getLargestPossibleRegion d = largest_possible_region d"

definition setLargestPossibleRegion :: "Region \<Rightarrow> data_object \<Rightarrow> data_object" where
  "setLargestPossibleRegion r d =
     d\<lparr>largest_possible_region := r, requested_region := intersect r (requested_region d)\<rparr>"

definition getRequestedRegion :: "data_object \<Rightarrow> Region" where
  "getRequestedRegion d = requested_region d"

definition setRequestedRegion :: "Region \<Rightarrow> data_object \<Rightarrow> pipeline_error + data_object" where
  "setRequestedRegion r d =
     (if contains (largest_possible_region d) r then Inr (d\<lparr>requested_region := r\<rparr>)
      else Inl InvalidRegionError)"

definition getBufferedRegion :: "data_object \<Rightarrow> Region" where
  "getBufferedRegion d = buffered_region d"

definition setBufferedRegion :: "Region \<Rightarrow> data_object \<Rightarrow> data_object" where
  "setBufferedRegion r d = d\<lparr>buffered_region := r\<rparr>"

definition empty_region :: Region where
  "empty_region = \<lparr>origin = [], extent = []\<rparr>"

definition new_data_object :: data_object where
  "new_data_object =
     \<lparr>largest_possible_region = empty_region, buffered_region = empty_region,
      requested_region = empty_region, modification_time = 0, pipeline_time = 0\<rparr>"

definition request_within :: "data_object \<Rightarrow> bool" where
  "request_within d = contains (getLargestPossibleRegion d) (getRequestedRegion d)"

definition buffer_covers :: "data_object \<Rightarrow> bool" where
  "buffer_covers d = contains (getBufferedRegion d) (getRequestedRegion d)"

text \<open>
  Modelled from the spec: sections 2, 3 and 4.2. A stage has a list of input slots, each
  empty or holding a reference to a data object, the number of required inputs, its own
  modification time, and the hooks the coordinator calls; it owns one or more output data
  objects. The hooks are parameters: \<open>generateOutputInformation\<close> gives the largest
  possible region of each output from those of the inputs (by slot),
  \<open>enlargeOutputRequestedRegion\<close> may expand a request, \<open>generateInputRequestedRegion\<close>
  gives the region needed from the input in a slot, and \<open>generateData\<close>, given the
  inputs (by slot) and the outputs, returns the outputs with the buffered regions the
  stage has given them, or nothing when it raises. The pixels that \<open>generateData\<close>
  computes are not modelled; each call is recorded with the regions requested of the
  outputs.

  A pipeline lists its stages, each with the data objects it owns; a reference to a
  data object is the position of its producer and the number of the output. The graph
  of producers has no cycle, so the stages can be listed with every input before its
  consumer: \<open>well_formed\<close>.
\<close>

type_synonym reference = "nat \<times> nat"

record stage =
  inputs :: "reference option list"
  number_of_required_inputs :: nat
  stage_time :: nat
  generateOutputInformation :: "Region option list \<Rightarrow> nat \<Rightarrow> Region"
  enlargeOutputRequestedRegion :: "Region \<Rightarrow> Region \<Rightarrow> Region"
  generateInputRequestedRegion :: "Region \<Rightarrow> nat \<Rightarrow> Region"
  generateData :: "data_object option list \<Rightarrow> data_object list \<Rightarrow> data_object list option"

record pipeline =
  stages :: "stage list"
  objects :: "data_object list list"
  global_clock :: nat
  generated :: "(nat \<times> Region list) list"

definition input_ids :: "stage \<Rightarrow> nat list" where
  "input_ids s = concat (map (\<lambda>x. case x of None \<Rightarrow> [] | Some (j, m) \<Rightarrow> [j]) (inputs s))"

definition input_objects :: "pipeline \<Rightarrow> stage \<Rightarrow> data_object option list" where
  "input_objects p s = map (map_option (\<lambda>(j, m). objects p ! j ! m)) (inputs s)"

definition missing_required_input :: "stage \<Rightarrow> bool" where
  "missing_required_input s =
     (length (inputs s) < number_of_required_inputs s \<or>
      list_ex (\<lambda>x. x = None) (take (number_of_required_inputs s) (inputs s)))"

definition well_formed :: "pipeline \<Rightarrow> bool" where
  "well_formed p =
     (length (objects p) = length (stages p) \<and>
      list_all (\<lambda>i. list_all (\<lambda>j. j < i) (input_ids (stages p ! i))) [0..<length (stages p)])"

text \<open>
  Modelled from the spec: section 4.3. The transitive input closure of the requested
  object, found by walking from its producer upstream, and the order in which a
  traversal from the roots visits it.
\<close>

fun mark :: "stage list \<Rightarrow> nat \<Rightarrow> nat set \<Rightarrow> nat set" where
  "mark ss 0 M = M"
| "mark ss (Suc i) M = mark ss i (if i \<in> M then M \<union> set (input_ids (ss ! i)) else M)"

definition closure :: "stage list \<Rightarrow> nat \<Rightarrow> nat set" where
  "closure ss t = mark ss (Suc t) {t}"

definition visit_order :: "stage list \<Rightarrow> nat \<Rightarrow> nat list" where
  "visit_order ss t = filter (\<lambda>i. i \<in> closure ss t) [0..<Suc t]"

text \<open>
  Modelled from the spec: section 4.1, information phase. Where the producer is newer
  than one of its data objects, the producer's metadata step runs on the up-to-date
  metadata of its inputs: every output gets its largest possible region and is stamped
  with the next clock value.
\<close>

definition information_step :: "nat \<Rightarrow> pipeline \<Rightarrow> pipeline" where
  "information_step i p =
     (let s = stages p ! i; outs = objects p ! i
      in if list_ex (\<lambda>d. stage_time s > modification_time d) outs
         then p\<lparr>objects := (objects p)[i :=
                   map (\<lambda>(m, d).
                          (setLargestPossibleRegion
                             (generateOutputInformation s
                                (map (map_option getLargestPossibleRegion) (input_objects p s)) m) d)
                          \<lparr>modification_time := Suc (global_clock p)\<rparr>)
                       (enumerate 0 outs)],
                global_clock := Suc (global_clock p)\<rparr>
         else p)"

text \<open>
  Modelled from the spec: sections 4.2 and 4.3, requested-region phase.
  \<open>generateData(region)\<close> fills one region of each output's buffer, so a region
  requested of one output of a stage is requested of all its outputs, each cut to its
  own largest possible region. The stage may enlarge the request, read from its first
  output, then sets the requested region of every input; the coordinator clips every
  region it sets to the largest possible region.
\<close>

definition request_outputs :: "Region \<Rightarrow> data_object list \<Rightarrow> data_object list" where
  "request_outputs r outs =
     map (\<lambda>d. d\<lparr>requested_region := intersect (largest_possible_region d) r\<rparr>) outs"

definition request_input ::
  "stage \<Rightarrow> Region \<Rightarrow> nat \<times> reference option \<Rightarrow> data_object list list \<Rightarrow> data_object list list" where
  "request_input s r slot ds =
     (case slot of
        (k, None) \<Rightarrow> ds
      | (k, Some (j, m)) \<Rightarrow> ds[j := request_outputs (generateInputRequestedRegion s r k) (ds ! j)])"

definition request_step :: "nat \<Rightarrow> pipeline \<Rightarrow> pipeline" where
  "request_step i p =
     (let s = stages p ! i
      in case objects p ! i of
           [] \<Rightarrow> p
         | d # outs \<Rightarrow>
             (let e = enlargeOutputRequestedRegion s (largest_possible_region d) (requested_region d);
                  r = intersect (largest_possible_region d) e
              in p\<lparr>objects := fold (request_input s r) (enumerate 0 (inputs s))
                                 ((objects p)[i := request_outputs e (d # outs)])\<rparr>))"

text \<open>
  Modelled from the spec: section 4.3, data phase. A stage executes when its own
  timestamp or an input's pipeline timestamp is newer than the pipeline timestamp of an
  output, or when a buffered region does not contain the requested region. Then
  \<open>generateData\<close> is invoked; when it returns, every output is stamped with the current
  clock and its buffered region is set to "(at least) the requested region": the region
  the stage has given it where that contains the requested region, the requested region
  otherwise. When \<open>generateData\<close> raises, the error ends the update and the pipeline
  timestamps stay.
\<close>

definition out_of_date :: "pipeline \<Rightarrow> nat \<Rightarrow> bool" where
  "out_of_date p i =
     (let s = stages p ! i
      in list_ex (\<lambda>d. stage_time s > pipeline_time d \<or>
                      list_ex (\<lambda>x. case x of None \<Rightarrow> False
                                    | Some input \<Rightarrow> pipeline_time input > pipeline_time d)
                        (input_objects p s) \<or>
                      \<not> contains (buffered_region d) (requested_region d))
           (objects p ! i))"

definition at_least :: "Region list \<Rightarrow> nat \<Rightarrow> Region \<Rightarrow> Region" where
  "at_least bs m r = (if m < length bs \<and> contains (bs ! m) r then bs ! m else r)"

definition data_step :: "nat \<Rightarrow> pipeline \<Rightarrow> pipeline_error option \<times> pipeline" where
  "data_step i p =
     (let s = stages p ! i; outs = objects p ! i
      in if out_of_date p i
         then (case generateData s (input_objects p s) outs of
                 None \<Rightarrow>
                   (Some ComputeError,
                    p\<lparr>generated := generated p @ [(i, map requested_region outs)]\<rparr>)
               | Some filled \<Rightarrow>
                   (None,
                    p\<lparr>objects := (objects p)[i :=
                         map (\<lambda>(m, d). d\<lparr>pipeline_time := global_clock p,
                                         buffered_region :=
                                           at_least (map buffered_region filled) m
                                             (requested_region d)\<rparr>)
                             (enumerate 0 outs)],
                      generated := generated p @ [(i, map requested_region outs)]\<rparr>))
         else (None, p))"

fun data_phase :: "nat list \<Rightarrow> pipeline \<Rightarrow> pipeline_error option \<times> pipeline" where
  "data_phase [] p = (None, p)"
| "data_phase (i # order) p =
     (case data_step i p of
        (Some e, p') \<Rightarrow> (Some e, p')
      | (None, p') \<Rightarrow> data_phase order p')"

text \<open>
  Modelled from the spec: sections 4.3 and 7. \<open>update\<close> is called on the output \<open>k\<close> of
  the stage \<open>t\<close> for the region \<open>r\<close> that the consumer requests. A stage of the closure
  that lacks a required input is a \<open>ConfigurationError\<close>, found before any phase runs
  (as is a request for an output that the stage does not have); the request is stored
  with \<open>setRequestedRegion\<close> once the information phase has run; then the
  requested-region phase runs from the object upstream and the data phase from the
  roots downstream. The result is the error raised, if any, and the pipeline as the
  three phases leave it.
\<close>

definition update :: "pipeline \<Rightarrow> reference \<Rightarrow> Region \<Rightarrow> pipeline_error option \<times> pipeline" where
  "update p target r =
     (case target of
        (t, k) \<Rightarrow>
          if \<not> t < length (stages p) then (Some ConfigurationError, p)
          else
            (let order = visit_order (stages p) t
             in if list_ex (\<lambda>i. missing_required_input (stages p ! i)) order
                then (Some ConfigurationError, p)
                else if \<not> k < length (objects p ! t) then (Some ConfigurationError, p)
                else
                  (let p1 = fold information_step order p
                   in case setRequestedRegion r (objects p1 ! t ! k) of
                        Inl e \<Rightarrow> (Some e, p1)
                      | Inr d \<Rightarrow>
                          data_phase order
                            (fold request_step (rev order)
                               (p1\<lparr>objects :=
                                     (objects p1)[t := (request_outputs r (objects p1 ! t))[k := d]]\<rparr>)))))"

text \<open>
  Modelled from the spec: sections 4.1 to 4.3. What can happen to a pipeline between its
  construction and any later moment: a collaborator calls a setter of a data
  object (a \<open>setRequestedRegion\<close> that fails changes nothing), reconfigures the stages
  (parameters, inputs, hooks, timestamps), or calls \<open>update\<close>; the steps the three
  phases are made of are actions of their own, so that the moments inside an update are
  covered as well. \<open>run\<close> performs a sequence of actions.
\<close>

datatype action =
    SetLargest reference Region
  | SetRequested reference Region
  | SetBuffered reference Region
  | Reconfigure "stage list"
  | Update reference Region
  | InformationStep nat
  | RequestStep nat
  | DataStep nat

definition modify :: "reference \<Rightarrow> (data_object \<Rightarrow> data_object) \<Rightarrow> pipeline \<Rightarrow> pipeline" where
  "modify ref f p =
     (case ref of
        (i, k) \<Rightarrow> p\<lparr>objects := (objects p)[i := (objects p ! i)[k := f (objects p ! i ! k)]]\<rparr>)"

fun perform :: "action \<Rightarrow> pipeline \<Rightarrow> pipeline" where
  "perform (SetLargest ref r) p = modify ref (setLargestPossibleRegion r) p"
| "perform (SetRequested ref r) p =
     modify ref (\<lambda>d. case setRequestedRegion r d of Inl e \<Rightarrow> d | Inr d' \<Rightarrow> d') p"
| "perform (SetBuffered ref r) p = modify ref (setBufferedRegion r) p"
| "perform (Reconfigure ss) p = p\<lparr>stages := ss\<rparr>"
| "perform (Update ref r) p = snd (update p ref r)"
| "perform (InformationStep i) p = information_step i p"
| "perform (RequestStep i) p = request_step i p"
| "perform (DataStep i) p = snd (data_step i p)"

definition run :: "action list \<Rightarrow> pipeline \<Rightarrow> pipeline" where
  "run acts p = fold perform acts p"

definition all_within :: "pipeline \<Rightarrow> bool" where
  "all_within p = list_all (list_all request_within) (objects p)"

definition shape :: "pipeline \<Rightarrow> nat list" where
  "shape p = map length (objects p)"

text \<open>
  Modelled from the spec: section 4.2. A stage with the default hooks (copy the
  metadata of the first input, request the identical region, enlarge nothing, give every
  output a buffer for its requested region), and a source that knows its full extent and
  buffers all of it.
\<close>

definition default_stage :: "reference option list \<Rightarrow> nat \<Rightarrow> nat \<Rightarrow> stage" where
  "default_stage ins required t =
     \<lparr>inputs = ins, number_of_required_inputs = required, stage_time = t,
      generateOutputInformation = (\<lambda>ls m. case ls of Some l # _ \<Rightarrow> l | _ \<Rightarrow> empty_region),
      enlargeOutputRequestedRegion = (\<lambda>l r. r),
      generateInputRequestedRegion = (\<lambda>r k. r),
      generateData =
        (\<lambda>ins outs. Some (map (\<lambda>d. setBufferedRegion (getRequestedRegion d) d) outs))\<rparr>"

definition source_stage :: "Region \<Rightarrow> nat \<Rightarrow> stage" where
  "source_stage full t =
     (default_stage [] 0 t)
       \<lparr>generateOutputInformation := (\<lambda>ls m. full),
        generateData := (\<lambda>ins outs. Some (map (setBufferedRegion full) outs))\<rparr>"

section \<open>EigenAnalysis2DImageFilter (itkEigenAnalysis2DImageFilter.hxx)\<close>

text \<open>
  The constructor asks for three required inputs and makes three outputs.
  \<^verbatim>\<open>GenerateData\<close> (lines 116 to 137) takes the three inputs, gives each of the three
  outputs the buffered region of the first input
  (\<^verbatim>\<open>outputPtr1->SetBufferedRegion(inputPtr1->GetBufferedRegion())\<close>), allocates them,
  and runs its pixel loop over \<^verbatim>\<open>outputPtr1->GetRequestedRegion()\<close>. The images are
  the data objects above: \<^verbatim>\<open>SetBufferedRegion\<close>, \<^verbatim>\<open>GetBufferedRegion\<close> and
  \<^verbatim>\<open>GetRequestedRegion\<close> of the image class are not among the sources and are the
  operations of the data object. \<^verbatim>\<open>Allocate\<close> and the pixel loop change no region;
  the result is the three outputs and the region of the loop.

  As a stage, the filter has the hooks of its superclass, which is not among the
  sources (the defaults of the specification), and this \<^verbatim>\<open>GenerateData\<close>; with an
  input missing or another number of outputs the pointers it dereferences are null and
  there is no result.
\<close>

definition EigenAnalysis2DImageFilter_GenerateData ::
  "data_object \<Rightarrow> data_object \<Rightarrow> data_object \<Rightarrow> data_object \<times> data_object \<times> data_object \<Rightarrow>
     (data_object \<times> data_object \<times> data_object) \<times> Region" where
  "EigenAnalysis2DImageFilter_GenerateData inputPtr1 inputPtr2 inputPtr3 outputs =
     (case outputs of
        (outputPtr1, outputPtr2, outputPtr3) \<Rightarrow>
          (let outputPtr1 = setBufferedRegion (getBufferedRegion inputPtr1) outputPtr1;
               outputPtr2 = setBufferedRegion (getBufferedRegion inputPtr1) outputPtr2;
               outputPtr3 = setBufferedRegion (getBufferedRegion inputPtr1) outputPtr3;
               region = getRequestedRegion outputPtr1
           in ((outputPtr1, outputPtr2, outputPtr3), region)))"

fun EigenAnalysis2DImageFilter_hook ::
  "data_object option list \<Rightarrow> data_object list \<Rightarrow> data_object list option" where
  "EigenAnalysis2DImageFilter_hook
     (Some inputPtr1 # Some inputPtr2 # Some inputPtr3 # rest) [outputPtr1, outputPtr2, outputPtr3] =
     (case EigenAnalysis2DImageFilter_GenerateData inputPtr1 inputPtr2 inputPtr3
             (outputPtr1, outputPtr2, outputPtr3) of
        ((a, b, c), region) \<Rightarrow> Some [a, b, c])"
| "EigenAnalysis2DImageFilter_hook ins outs = None"

definition EigenAnalysis2DImageFilter :: "reference option list \<Rightarrow> nat \<Rightarrow> stage" where
  "EigenAnalysis2DImageFilter ins t =
     (default_stage ins 3 t)\<lparr>generateData := EigenAnalysis2DImageFilter_hook\<rparr>"

definition EigenAnalysis2DImageFilter_outputs :: "data_object list" where
  "EigenAnalysis2DImageFilter_outputs = [new_data_object, new_data_object, new_data_object]"

section \<open>Objects the examples are evaluated on\<close>

text \<open>
  Regions of one and of two dimensions; a stage that requires two inputs and has one; a
  pipeline of three sources of 10 by 10 pixels and the eigen-analysis filter; and a
  sequence of calls on the first source's output.
\<close>

definition line :: "int \<Rightarrow> int \<Rightarrow> Region" where
  "line lo n = \<lparr>origin = [lo], extent = [n]\<rparr>"

definition box :: "int \<times> int \<Rightarrow> int \<times> int \<Rightarrow> Region" where
  "box idx sz = \<lparr>origin = [fst idx, snd idx], extent = [fst sz, snd sz]\<rparr>"

definition half_connected :: pipeline where
  "half_connected =
     \<lparr>stages = [source_stage (line 0 10) 1, default_stage [Some (0, 0), None] 2 2],
      objects = [[new_data_object], [new_data_object]], global_clock = 2, generated = []\<rparr>"

definition eigen_pipeline :: pipeline where
  "eigen_pipeline =
     \<lparr>stages = [source_stage (box (0, 0) (10, 10)) 1, source_stage (box (0, 0) (10, 10)) 1,
                source_stage (box (0, 0) (10, 10)) 1,
                EigenAnalysis2DImageFilter [Some (0, 0), Some (1, 0), Some (2, 0)] 2],
      objects = [[new_data_object], [new_data_object], [new_data_object],
                 EigenAnalysis2DImageFilter_outputs],
      global_clock = 2, generated = []\<rparr>"

definition eigen_two_inputs :: pipeline where
  "eigen_two_inputs =
     eigen_pipeline\<lparr>stages := (stages eigen_pipeline)
        [3 := EigenAnalysis2DImageFilter [Some (0, 0), Some (1, 0), None] 2]\<rparr>"

definition calls :: "action list" where
  "calls =
     [SetLargest (0, 0) (box (0, 0) (10, 10)), SetRequested (0, 0) (box (0, 0) (10, 10)),
      SetLargest (0, 0) (box (0, 0) (5, 5))]"

text \<open>A clamp filter of \<^verbatim>\<open>unsigned char\<close> pixels and a mesh spatial object.\<close>

definition uchar_filter :: "8 word ClampImageFilter" where
  "uchar_filter = ClampImageFilter_new uchar_traits 3"

definition mesh_object :: MeshSpatialObject where
  "mesh_object = \<lparr>m_MTime = 2, m_Mesh = Some 100, m_IsInsidePrecisionInObjectSpace = Finite 1\<rparr>"

section \<open>Theorems: GaussianOperator\<close>

lemma double_ge_one_or_le_zero_cases:
  "(e \<ge> Finite 1 \<or> e \<le> Finite 0) =
     (case e of NaN \<Rightarrow> False | NegInf \<Rightarrow> True | PosInf \<Rightarrow> True
      | Finite r \<Rightarrow> r \<le> 0 \<or> 1 \<le> r)"
  by (cases e) auto

text \<open>
  C10. \<^verbatim>\<open>SetMaximumError(e)\<close> throws exactly when \<open>e \<le> 0\<close> or \<open>e \<ge> 1\<close>
  (comparisons of doubles, so NaN is stored); the description it throws names the closed
  range, and the boundary values 0 and 1 themselves are rejected; whenever it throws, the
  operator, and with it the stored maximum error, is as before; otherwise the new value
  is stored.
\<close>

theorem SetMaximumError_raises_iff:
  "((fst (SetMaximumError e g) \<noteq> None) = (e \<le> Finite 0 \<or> e \<ge> Finite 1)) \<and>
   (fst (SetMaximumError e g) \<noteq> None \<longrightarrow>
      fst (SetMaximumError e g) =
        Some (ExceptionObject ''Maximum Error Must be in the range [ 0.0 , 1.0 ]'') \<and>
      snd (SetMaximumError e g) = g \<and>
      GetMaximumError (snd (SetMaximumError e g)) = GetMaximumError g) \<and>
   (fst (SetMaximumError e g) = None \<longrightarrow>
      GetMaximumError (snd (SetMaximumError e g)) = e) \<and>
   fst (SetMaximumError (Finite 0) g) \<noteq> None \<and>
   fst (SetMaximumError (Finite 1) g) \<noteq> None"
  by (simp add: SetMaximumError_def GetMaximumError_def)

theorem SetMaximumError_raises_iff_witness:
  "fst (SetMaximumError (Finite 0) GaussianOperator_new) \<noteq> None \<and>
   GetMaximumError (snd (SetMaximumError (Finite 0) GaussianOperator_new)) =
     Finite (5764607523034235 / 2 ^ 59) \<and>
   fst (SetMaximumError (Finite (1 / 2)) GaussianOperator_new) = None \<and>
   GetMaximumError (snd (SetMaximumError (Finite (1 / 2)) GaussianOperator_new)) = Finite (1 / 2) \<and>
   fst (SetMaximumError NaN GaussianOperator_new) = None"
  using SetMaximumError_raises_iff [of "Finite 0" GaussianOperator_new]
    SetMaximumError_raises_iff [of "Finite (1 / 2)" GaussianOperator_new]
    SetMaximumError_raises_iff [of NaN GaussianOperator_new]
  by (simp add: GetMaximumError_def GaussianOperator_new_def)

section \<open>Theorems: setters with change notification\<close>

text \<open>On an integer pixel type the comparison of the setter is equality.\<close>

lemma ExactlyEquals_linorder: "ExactlyEquals a b = (a = (b::'p::linorder))"
  by (auto simp: ExactlyEquals_def)

text \<open>
  C8 (as amended). \<^verbatim>\<open>ClampImageFilter::SetBounds\<close> and
  \<^verbatim>\<open>MeshSpatialObject::SetMesh\<close>, on objects whose timestamps were issued by the
  clock: a call with the stored value (bounds that compare equal to the stored ones, the
  stored mesh) changes neither the object nor the clock; a call
  with a different value that the setter accepts stores it and moves the modification
  time to the next clock value, strictly later than before (also as \<^verbatim>\<open>GetMTime\<close>
  reports it for the spatial object, wherever \<^verbatim>\<open>GetMTime\<close> has a result: it has
  none for a null mesh, and it is the next clock value once a mesh that is not null has
  been set); \<^verbatim>\<open>SetBounds\<close> with a lower bound above the upper bound throws and changes
  nothing.
\<close>

theorem setters_notify_only_on_change:
  fixes lo hi :: "'p::ord"
  assumes "m_MTime f \<le> clock" and "m_MTime s \<le> clock" and "\<forall>a. mesh_times a \<le> clock"
  shows
   "(ExactlyEquals lo (GetLowerBound f) \<and> ExactlyEquals hi (GetUpperBound f) \<longrightarrow>
       SetBounds lo hi clock f = (None, f, clock)) \<and>
    (\<not> (ExactlyEquals lo (GetLowerBound f) \<and> ExactlyEquals hi (GetUpperBound f)) \<and>
     \<not> lo > hi \<longrightarrow>
       (\<exists>f'. SetBounds lo hi clock f = (None, f', Suc clock) \<and>
             GetLowerBound f' = lo \<and> GetUpperBound f' = hi \<and>
             m_MTime f' = Suc clock \<and> m_MTime f < m_MTime f')) \<and>
    (\<not> (ExactlyEquals lo (GetLowerBound f) \<and> ExactlyEquals hi (GetUpperBound f)) \<and>
     lo > hi \<longrightarrow>
       (\<exists>e. SetBounds lo hi clock f = (Some e, f, clock))) \<and>
    (mesh = GetMesh s \<longrightarrow> SetMesh mesh clock s = (s, clock)) \<and>
    (mesh \<noteq> GetMesh s \<longrightarrow>
       (\<exists>s'. SetMesh mesh clock s = (s', Suc clock) \<and> GetMesh s' = mesh \<and>
             m_MTime s' = Suc clock \<and> m_MTime s < m_MTime s' \<and>
             (\<forall>t t'. GetMTime mesh_times s = Some t \<and> GetMTime mesh_times s' = Some t' \<longrightarrow>
                t < t') \<and>
             (mesh \<noteq> None \<longrightarrow> GetMTime mesh_times s' = Some (Suc clock)) \<and>
             (mesh = None \<longrightarrow> GetMTime mesh_times s' = None)))"
proof -
  have a: "mesh_times x < Suc clock" for x
    using assms(3) by (simp add: le_imp_less_Suc)
  have bounds:
    "(ExactlyEquals lo (GetLowerBound f) \<and> ExactlyEquals hi (GetUpperBound f) \<longrightarrow>
       SetBounds lo hi clock f = (None, f, clock)) \<and>
    (\<not> (ExactlyEquals lo (GetLowerBound f) \<and> ExactlyEquals hi (GetUpperBound f)) \<and>
     \<not> lo > hi \<longrightarrow>
       (\<exists>f'. SetBounds lo hi clock f = (None, f', Suc clock) \<and>
             GetLowerBound f' = lo \<and> GetUpperBound f' = hi \<and>
             m_MTime f' = Suc clock \<and> m_MTime f < m_MTime f')) \<and>
    (\<not> (ExactlyEquals lo (GetLowerBound f) \<and> ExactlyEquals hi (GetUpperBound f)) \<and>
     lo > hi \<longrightarrow>
       (\<exists>e. SetBounds lo hi clock f = (Some e, f, clock)))"
    using assms(1)
    by (auto simp: SetBounds_def Clamp_SetBounds_def Modified_def
        GetLowerBound_def GetUpperBound_def GetFunctor_def Clamp_GetLowerBound_def
        Clamp_GetUpperBound_def)
  have same: "mesh = GetMesh s \<longrightarrow> SetMesh mesh clock s = (s, clock)"
    by (simp add: SetMesh_def GetMesh_def)
  have other: "mesh \<noteq> GetMesh s \<longrightarrow>
       (\<exists>s'. SetMesh mesh clock s = (s', Suc clock) \<and> GetMesh s' = mesh \<and>
             m_MTime s' = Suc clock \<and> m_MTime s < m_MTime s' \<and>
             (\<forall>t t'. GetMTime mesh_times s = Some t \<and> GetMTime mesh_times s' = Some t' \<longrightarrow>
                t < t') \<and>
             (mesh \<noteq> None \<longrightarrow> GetMTime mesh_times s' = Some (Suc clock)) \<and>
             (mesh = None \<longrightarrow> GetMTime mesh_times s' = None))"
  proof
    assume d: "mesh \<noteq> GetMesh s"
    let ?s' = "s\<lparr>m_Mesh := mesh, m_MTime := Suc clock\<rparr>"
    have set: "SetMesh mesh clock s = (?s', Suc clock)"
      using d by (simp add: SetMesh_def GetMesh_def Modified_def)
    have before: "t < Suc clock" if "GetMTime mesh_times s = Some t" for t
      using that assms(2) a
      by (auto simp: GetMTime_def Superclass_GetMTime_def Let_def split: option.splits if_splits)
    have "\<not> Suc clock < mesh_times x" for x
      using assms(3) by (simp add: not_less le_SucI)
    then have after: "GetMTime mesh_times ?s' = Some (Suc clock)" if "mesh \<noteq> None"
      using that
      by (auto simp: GetMTime_def Superclass_GetMTime_def Let_def split: option.splits)
    have null: "GetMTime mesh_times ?s' = None" if "mesh = None"
      using that by (simp add: GetMTime_def)
    have strict: "\<forall>t t'. GetMTime mesh_times s = Some t \<and> GetMTime mesh_times ?s' = Some t' \<longrightarrow>
        t < t'"
      using before after null by (cases mesh) auto
    have "GetMesh ?s' = mesh" "m_MTime ?s' = Suc clock" "m_MTime s < m_MTime ?s'"
      using assms(2) by (simp_all add: GetMesh_def)
    then show "\<exists>s'. SetMesh mesh clock s = (s', Suc clock) \<and> GetMesh s' = mesh \<and>
             m_MTime s' = Suc clock \<and> m_MTime s < m_MTime s' \<and>
             (\<forall>t t'. GetMTime mesh_times s = Some t \<and> GetMTime mesh_times s' = Some t' \<longrightarrow>
                t < t') \<and>
             (mesh \<noteq> None \<longrightarrow> GetMTime mesh_times s' = Some (Suc clock)) \<and>
             (mesh = None \<longrightarrow> GetMTime mesh_times s' = None)"
      using set strict after null by blast
  qed
  show ?thesis
    using bounds same other by blast
qed

theorem setters_notify_only_on_change_witness:
  "SetBounds 0 255 7 uchar_filter = (None, uchar_filter, 7) \<and>
   fst (SetBounds 10 20 7 uchar_filter) = None \<and>
   GetLowerBound (fst (snd (SetBounds 10 20 7 uchar_filter))) = 10 \<and>
   GetUpperBound (fst (snd (SetBounds 10 20 7 uchar_filter))) = 20 \<and>
   m_MTime (fst (snd (SetBounds 10 20 7 uchar_filter))) = 8 \<and>
   fst (SetBounds 20 10 7 uchar_filter) \<noteq> None \<and>
   snd (SetBounds 20 10 7 uchar_filter) = (uchar_filter, 7) \<and>
   SetMesh (Some 100) 7 mesh_object = (mesh_object, 7) \<and>
   GetMesh (fst (SetMesh (Some 101) 7 mesh_object)) = Some 101 \<and>
   m_MTime (fst (SetMesh (Some 101) 7 mesh_object)) = 8 \<and>
   GetMTime (\<lambda>a. 5) mesh_object = Some 5 \<and>
   GetMTime (\<lambda>a. 5) (fst (SetMesh (Some 101) 7 mesh_object)) = Some 8 \<and>
   GetMTime (\<lambda>a. 5) (fst (SetMesh None 7 mesh_object)) = None"
proof -
  have f: "m_MTime uchar_filter \<le> 7" and s: "m_MTime mesh_object \<le> 7"
    and m: "\<forall>a::nat. (\<lambda>a. 5::nat) a \<le> 7"
    by (simp_all add: uchar_filter_def ClampImageFilter_new_def mesh_object_def)
  have bounds: "GetLowerBound uchar_filter = 0" "GetUpperBound uchar_filter = 255"
    by (simp_all add: uchar_filter_def ClampImageFilter_new_def uchar_traits_def Clamp_new_def
        GetLowerBound_def GetUpperBound_def GetFunctor_def Clamp_GetLowerBound_def
        Clamp_GetUpperBound_def)
  have same: "ExactlyEquals (0::8 word) 0" "ExactlyEquals (255::8 word) 255"
    and other: "\<not> ExactlyEquals (10::8 word) 0" "\<not> ExactlyEquals (20::8 word) 0"
    by (simp_all add: ExactlyEquals_linorder)
  have mesh: "GetMesh mesh_object = Some 100"
    by (simp add: GetMesh_def mesh_object_def)
  have mt: "GetMTime (\<lambda>a. 5) mesh_object = Some 5"
    by (simp add: GetMTime_def Superclass_GetMTime_def mesh_object_def)
  show ?thesis
    using setters_notify_only_on_change [OF f s m, of 0 255 "Some 100"]
      setters_notify_only_on_change [OF f s m, of 10 20 "Some 101"]
      setters_notify_only_on_change [OF f s m, of 20 10 None]
      bounds mesh mt same other
    by auto
qed

theorem SetBounds_rejected_value_counterexample:
  "\<not> ExactlyEquals (5::8 word) (GetLowerBound uchar_filter) \<and>
   \<not> ExactlyEquals 3 (GetUpperBound uchar_filter) \<and>
   SetBounds 5 3 7 uchar_filter = (Some (ExceptionObject ''invalid bounds: [''), uchar_filter, 7) \<and>
   GetLowerBound (fst (snd (SetBounds 5 3 7 uchar_filter))) \<noteq> 5 \<and>
   GetUpperBound (fst (snd (SetBounds 5 3 7 uchar_filter))) \<noteq> 3 \<and>
   m_MTime (fst (snd (SetBounds 5 3 7 uchar_filter))) = m_MTime uchar_filter"
  by (simp add: SetBounds_def ExactlyEquals_def Clamp_SetBounds_def uchar_filter_def
      ClampImageFilter_new_def uchar_traits_def Clamp_new_def GetLowerBound_def
      GetUpperBound_def GetFunctor_def Clamp_GetLowerBound_def Clamp_GetUpperBound_def)

section \<open>Theorems: ClampImageFilter::GenerateData\<close>

text \<open>
  For a pixel type that is linearly ordered, with every pixel of the input between the
  two limits of the type (as for every integer pixel type), the fast path and the
  per-pixel clamping of the superclass both return the input.
\<close>

lemma Clamp_call_in_range:
  fixes A :: "'p::linorder"
  shows "m_LowerBound c \<le> A \<Longrightarrow> A \<le> m_UpperBound c \<Longrightarrow> Clamp_call c A = A"
  by (auto simp: Clamp_call_def)

lemma GenerateData_in_place_identity:
  fixes input :: "'p::linorder list"
  assumes "GetInPlace this" and "CanRunInPlace this"
    and "GetLowerBound this \<le> NonpositiveMin traits"
    and "GetUpperBound this \<ge> max_value traits"
    and "\<forall>A \<in> set input. NonpositiveMin traits \<le> A \<and> A \<le> max_value traits"
  shows "GenerateData traits this input = input \<and>
         Superclass_GenerateData this input = input"
proof -
  have "Clamp_call (GetFunctor this) A = A" if "A \<in> set input" for A
  proof (rule Clamp_call_in_range)
    show "m_LowerBound (GetFunctor this) \<le> A"
      using assms(3,5) that
      by (auto simp: GetLowerBound_def Clamp_GetLowerBound_def intro: order_trans)
    show "A \<le> m_UpperBound (GetFunctor this)"
      using assms(4,5) that
      by (auto simp: GetUpperBound_def Clamp_GetUpperBound_def intro: order_trans)
  qed
  then have "Superclass_GenerateData this input = input"
    by (simp add: Superclass_GenerateData_def map_idI)
  moreover have "GenerateData traits this input = input"
    using assms(1-4) by (simp add: GenerateData_def AllocateOutputs_def)
  ultimately show ?thesis by simp
qed

text \<open>
  C9. The filter as constructed for \<^verbatim>\<open>double\<close> pixels satisfies the condition of
  the fast path, which returns the input as it is; on the pixel \<open>+\<infinity>\<close> the
  per-pixel clamping of the superclass gives the largest finite value instead.
\<close>

theorem GenerateData_infinite_pixel:
  "GetInPlace (ClampImageFilter_new double_traits 0) \<and>
   CanRunInPlace (ClampImageFilter_new double_traits 0) \<and>
   GetLowerBound (ClampImageFilter_new double_traits 0) \<le> NonpositiveMin double_traits \<and>
   GetUpperBound (ClampImageFilter_new double_traits 0) \<ge> max_value double_traits \<and>
   GenerateData double_traits (ClampImageFilter_new double_traits 0) [PosInf] = [PosInf] \<and>
   Superclass_GenerateData (ClampImageFilter_new double_traits 0) [PosInf] = [Finite DBL_MAX]"
  by (simp add: GenerateData_def Superclass_GenerateData_def AllocateOutputs_def
      ClampImageFilter_new_def double_traits_def Clamp_new_def Clamp_call_def
      GetInPlace_def CanRunInPlace_def GetLowerBound_def GetUpperBound_def GetFunctor_def
      Clamp_GetLowerBound_def Clamp_GetUpperBound_def)

section \<open>Theorems: the streaming test\<close>

lemma to_IndexValueType_id: "0 \<le> v \<Longrightarrow> v < 2 ^ 63 \<Longrightarrow> to_IndexValueType v = v"
  by (simp add: to_IndexValueType_def)

lemma to_SizeValueType_id: "0 \<le> v \<Longrightarrow> v < 2 ^ 64 \<Longrightarrow> to_SizeValueType v = nat v"
  by (simp add: to_SizeValueType_def)

lemma int_below_2_63: "(m::nat) < 2 ^ 63 \<Longrightarrow> int m < 2 ^ 63"
proof -
  assume "m < 2 ^ 63"
  then have "int m < int (2 ^ 63)"
    by (simp only: of_nat_less_iff)
  then show ?thesis by simp
qed

lemma index_of_offset:
  assumes "m \<le> f2" and "f2 < 2 ^ 63"
  shows "to_IndexValueType (int m) = int m"
proof -
  have "m < 2 ^ 63"
    using assms by (rule order_le_less_trans)
  then have "int m < 2 ^ 63"
    by (rule int_below_2_63)
  then show ?thesis
    by (intro to_IndexValueType_id) simp_all
qed

lemma size_of_rest:
  assumes "m \<le> f2" and "f2 < 2 ^ 63"
  shows "to_SizeValueType (int f2 - int m) = f2 - m"
proof -
  have "int f2 - int m \<le> int f2"
    by simp
  also have "int f2 < 2 ^ 63"
    using assms(2) by (rule int_below_2_63)
  also have "(2::int) ^ 63 < 2 ^ 64"
    by simp
  finally have "int f2 - int m < 2 ^ 64" .
  moreover have "0 \<le> int f2 - int m"
    using assms(1) by simp
  ultimately have "to_SizeValueType (int f2 - int m) = nat (int f2 - int m)"
    by (intro to_SizeValueType_id)
  then show ?thesis
    by (simp add: nat_diff_distrib')
qed

declare pieces_loop.simps [simp del]

lemma pieces_loop_done:
  "\<not> i < n \<Longrightarrow> pieces_loop env (f0, f1, f2) n z i index2 size2 out = (EXIT_SUCCESS, out)"
  by (simp add: pieces_loop.simps)

lemma pieces_loop_step:
  assumes "i < n" and "index2 + int size2 = int (i * z)" and "(n - 1) * z \<le> f2"
    and "f2 < 2 ^ 63"
  shows "pieces_loop env (f0, f1, f2) n z i index2 size2 out =
     (if reader_throws env (slab (f0, f1, f2) n z i) \<or> writer_throws env (slab (f0, f1, f2) n z i)
      then (EXIT_FAILURE, out)
      else pieces_loop env (f0, f1, f2) n z (Suc i) (int (i * z))
             (if i = n - 1 then f2 - i * z else z)
             (out @ [(slab (f0, f1, f2) n z i,
                       region_pixels (stored_image env) (slab (f0, f1, f2) n z i))]))"
proof -
  have "i \<le> n - 1"
    using assms(1) by simp
  then have "i * z \<le> (n - 1) * z"
    by (rule mult_le_mono1)
  then have le: "i * z \<le> f2"
    using assms(3) by (rule order_trans)
  have idx: "to_IndexValueType (index2 + int size2) = int (i * z)"
    using index_of_offset [OF le assms(4)] assms(2) by simp
  have sz: "to_SizeValueType (int f2 - int (i * z)) = f2 - i * z"
    by (rule size_of_rest [OF le assms(4)])
  have size_eq: "(if i = n - 1 then to_SizeValueType (int f2 - int (i * z)) else z) =
      (if i = n - 1 then f2 - i * z else z)"
    by (simp only: sz)
  have region: "slab (f0, f1, f2) n z i =
      \<lparr>m_Index = (0, 0, int (i * z)), m_Size = (f0, f1, if i = n - 1 then f2 - i * z else z)\<rparr>"
    by (simp add: slab_def)
  show ?thesis
    apply (subst pieces_loop.simps)
    apply (simp only: assms(1) if_True Let_def idx size_eq region [symmetric])
    apply (simp add: reader_Update_def writer_Update_def)
    done
qed

lemma pieces_loop_success:
  assumes "pieces_loop env (f0, f1, f2) n z i index2 size2 out = (EXIT_SUCCESS, out')"
    and "i < n \<longrightarrow> index2 + int size2 = int (i * z)"
    and "(n - 1) * z \<le> f2" and "f2 < 2 ^ 63"
  shows "out' = out @ map (\<lambda>j. (slab (f0, f1, f2) n z j,
                       region_pixels (stored_image env) (slab (f0, f1, f2) n z j))) [i..<n]"
  using assms(1,2)
proof (induction "n - i" arbitrary: i index2 size2 out)
  case 0
  then show ?case by (simp add: pieces_loop_done)
next
  case (Suc k)
  then have i: "i < n" and inv: "index2 + int size2 = int (i * z)"
    by simp_all
  let ?r = "slab (f0, f1, f2) n z i"
  have quiet: "\<not> (reader_throws env ?r \<or> writer_throws env ?r)"
    using Suc.prems(1) pieces_loop_step [OF i inv assms(3,4), of env f0 f1 out]
    by (auto split: if_splits)
  have next_inv: "Suc i < n \<longrightarrow>
      int (i * z) + int (if i = n - 1 then f2 - i * z else z) = int (Suc i * z)"
    by auto
  have "out' = (out @ [(?r, region_pixels (stored_image env) ?r)]) @
      map (\<lambda>j. (slab (f0, f1, f2) n z j,
                 region_pixels (stored_image env) (slab (f0, f1, f2) n z j))) [Suc i..<n]"
  proof (rule Suc.hyps(1))
    show "k = n - Suc i" using Suc.hyps(2) by simp
    show "pieces_loop env (f0, f1, f2) n z (Suc i) (int (i * z))
            (if i = n - 1 then f2 - i * z else z)
            (out @ [(?r, region_pixels (stored_image env) ?r)]) = (EXIT_SUCCESS, out')"
      using Suc.prems(1) quiet pieces_loop_step [OF i inv assms(3,4), of env f0 f1 out]
      by simp
    show "Suc i < n \<longrightarrow>
      int (i * z) + int (if i = n - 1 then f2 - i * z else z) = int (Suc i * z)"
      by (rule next_inv)
  qed
  then show ?case
    using i by (simp add: upt_conv_Cons)
qed

lemma pieces_loop_quiet:
  assumes "\<forall>r. \<not> reader_throws env r" and "\<forall>r. \<not> writer_throws env r"
  shows "fst (pieces_loop env (f0, f1, f2) n z i index2 size2 out) = EXIT_SUCCESS"
proof (induction "n - i" arbitrary: i index2 size2 out)
  case 0
  then show ?case by (simp add: pieces_loop_done)
next
  case (Suc k)
  then have "i < n" and "k = n - Suc i" by simp_all
  then show ?case
    using Suc.hyps(1) assms
    by (subst pieces_loop.simps)
      (simp add: Let_def reader_Update_def writer_Update_def)
qed


lemma slab_cover_nat:
  assumes "(1::nat) \<le> n" and "(n - 1) * z \<le> f2"
  shows "(m < f2) = (\<exists>j<n. j * z \<le> m \<and> m < j * z + (if j = n - 1 then f2 - j * z else z))"
proof
  assume m: "m < f2"
  show "\<exists>j<n. j * z \<le> m \<and> m < j * z + (if j = n - 1 then f2 - j * z else z)"
  proof (cases "(n - 1) * z \<le> m")
    case True
    have "(n - 1) * z + (f2 - (n - 1) * z) = f2"
      using assms(2) by simp
    then have "m < (n - 1) * z + (if n - 1 = n - 1 then f2 - (n - 1) * z else z)"
      using m by simp
    moreover have "n - 1 < n"
      using assms(1) by simp
    ultimately show ?thesis
      using True by blast
  next
    case False
    then have less: "m < (n - 1) * z" by simp
    then have zpos: "0 < z" by (cases z) simp_all
    let ?j = "m div z"
    have "?j * z \<le> m" by simp
    moreover have "m < ?j * z + z"
      using zpos by (metis div_mult_mod_eq add_less_cancel_left mod_less_divisor)
    moreover have "?j < n - 1"
      using less zpos by (simp add: less_mult_imp_div_less mult.commute)
    ultimately have "?j < n \<and> ?j * z \<le> m \<and>
        m < ?j * z + (if ?j = n - 1 then f2 - ?j * z else z)"
      by simp
    then show ?thesis by blast
  qed
next
  assume "\<exists>j<n. j * z \<le> m \<and> m < j * z + (if j = n - 1 then f2 - j * z else z)"
  then obtain j where j: "j < n" "j * z \<le> m"
      "m < j * z + (if j = n - 1 then f2 - j * z else z)"
    by blast
  show "m < f2"
  proof (cases "j = n - 1")
    case True
    then show ?thesis using j assms by simp
  next
    case False
    then have "Suc j \<le> n - 1" using j(1) by simp
    then have "Suc j * z \<le> (n - 1) * z" by (rule mult_le_mono1)
    then show ?thesis using j(3) False assms(2) by simp
  qed
qed

lemma slab_disjoint_nat:
  assumes "(i::nat) < j" and "j < n"
  shows "\<not> (m < i * z + (if i = n - 1 then f2 - i * z else z) \<and> j * z \<le> m)"
proof -
  have "Suc i \<le> j" using assms(1) by simp
  then have "Suc i * z \<le> j * z" by (rule mult_le_mono1)
  moreover have "i \<noteq> n - 1" using assms by simp
  ultimately show ?thesis by simp
qed

lemma IsInside_slab:
  "IsInside (slab (f0, f1, f2) n z j) (x, y, int m) =
     (0 \<le> x \<and> x < int f0 \<and> 0 \<le> y \<and> y < int f1 \<and>
      j * z \<le> m \<and> m < j * z + (if j = n - 1 then f2 - j * z else z))"
proof -
  have "(int (j * z) \<le> int m) = (j * z \<le> m)"
    by (simp only: of_nat_le_iff)
  moreover have "(int m < int (j * z) + int s) = (m < j * z + s)" for s
    by (simp only: of_nat_add [symmetric] of_nat_less_iff)
  ultimately show ?thesis
    by (simp add: IsInside_def slab_def del: of_nat_mult of_nat_add)
qed

lemma IsInside_negative:
  "k < 0 \<Longrightarrow> \<not> IsInside (slab (f0, f1, f2) n z j) (x, y, k)"
  "k < 0 \<Longrightarrow> \<not> IsInside (full_region (f0, f1, f2)) (x, y, k)"
  using of_nat_0_le_iff [of "j * z", where ?'a = int]
  by (auto simp: IsInside_def slab_def full_region_def simp del: of_nat_mult)

lemma IsInside_full_region:
  "IsInside (full_region (f0, f1, f2)) (x, y, int m) =
     (0 \<le> x \<and> x < int f0 \<and> 0 \<le> y \<and> y < int f1 \<and> m < f2)"
  by (simp add: IsInside_def full_region_def)

lemma slabs_cover:
  assumes "1 \<le> n" and "(n - 1) * z \<le> f2"
  shows "IsInside (full_region (f0, f1, f2)) p =
     (\<exists>j<n. IsInside (slab (f0, f1, f2) n z j) p)"
proof -
  obtain x y k where p: "p = (x, y, k)" by (cases p)
  show ?thesis
  proof (cases "k < 0")
    case True
    then show ?thesis by (simp add: p IsInside_negative)
  next
    case False
    then obtain m where k: "k = int m"
      using nonneg_int_cases [of k] by (metis not_less)
    show ?thesis
      unfolding p k IsInside_slab IsInside_full_region
        slab_cover_nat [OF assms, of m]
      by blast
  qed
qed

lemma slabs_disjoint:
  assumes "i < j" and "j < n"
  shows "\<not> (IsInside (slab (f0, f1, f2) n z i) p \<and> IsInside (slab (f0, f1, f2) n z j) p)"
proof -
  obtain x y k where p: "p = (x, y, k)" by (cases p)
  show ?thesis
  proof (cases "k < 0")
    case True
    then show ?thesis by (simp add: p IsInside_negative)
  next
    case False
    then obtain m where k: "k = int m"
      using nonneg_int_cases [of k] by (metis not_less)
    show ?thesis
      unfolding p k IsInside_slab
      using slab_disjoint_nat [OF assms, of m z f2] by blast
  qed
qed

lemma span_add: "span i (a + b) = span i a @ span (i + int a) b"
proof -
  have "[0..<a + b] = [0..<a] @ [a..<a + b]"
    by (rule upt_add_eq_append) simp
  moreover have "[a..<a + b] = map (\<lambda>k. k + a) [0..<b]"
    by (simp only: add.commute [of a b] map_add_upt)
  moreover have "map (\<lambda>k. i + int k) (map (\<lambda>k. k + a) [0..<b]) =
      map (\<lambda>k. i + int a + int k) [0..<b]"
    by (induction b) simp_all
  ultimately show ?thesis
    by (simp only: span_def map_append)
qed

lemma region_pixels_stack:
  "region_pixels img \<lparr>m_Index = (0, 0, int a), m_Size = (f0, f1, s + t)\<rparr> =
   region_pixels img \<lparr>m_Index = (0, 0, int a), m_Size = (f0, f1, s)\<rparr> @
   region_pixels img \<lparr>m_Index = (0, 0, int (a + s)), m_Size = (f0, f1, t)\<rparr>"
  by (simp add: region_pixels_def span_add)

lemma uniform_slabs_pixels:
  "concat (map (\<lambda>j. region_pixels img \<lparr>m_Index = (0, 0, int (j * z)), m_Size = (f0, f1, z)\<rparr>)
             [0..<k]) =
   region_pixels img \<lparr>m_Index = (0, 0, int 0), m_Size = (f0, f1, k * z)\<rparr>"
proof (induction k)
  case 0
  then show ?case by (simp add: region_pixels_def span_def)
next
  case (Suc k)
  have "region_pixels img \<lparr>m_Index = (0, 0, int 0), m_Size = (f0, f1, k * z + z)\<rparr> =
      region_pixels img \<lparr>m_Index = (0, 0, int 0), m_Size = (f0, f1, k * z)\<rparr> @
      region_pixels img \<lparr>m_Index = (0, 0, int (0 + k * z)), m_Size = (f0, f1, z)\<rparr>"
    by (rule region_pixels_stack)
  moreover have "Suc k * z = k * z + z" and "0 + k * z = k * z"
    by simp_all
  moreover have "[0..<Suc k] = [0..<k] @ [k]"
    by simp
  ultimately show ?case
    using Suc.IH
    by (simp only: map_append concat_append list.map concat.simps append_Nil2)
qed

lemma slabs_pixels:
  assumes "1 \<le> n" and "(n - 1) * z \<le> f2"
  shows "concat (map (\<lambda>j. region_pixels img (slab (f0, f1, f2) n z j)) [0..<n]) =
         region_pixels img (full_region (f0, f1, f2))"
proof -
  obtain k where n: "n = Suc k"
    using assms(1) by (cases n) simp_all
  have le: "k * z \<le> f2"
    using assms(2) n by simp
  have inner: "map (\<lambda>j. region_pixels img (slab (f0, f1, f2) n z j)) [0..<k] =
      map (\<lambda>j. region_pixels img \<lparr>m_Index = (0, 0, int (j * z)), m_Size = (f0, f1, z)\<rparr>) [0..<k]"
    by (rule map_cong) (simp_all add: slab_def n)
  have last: "region_pixels img (slab (f0, f1, f2) n z k) =
      region_pixels img \<lparr>m_Index = (0, 0, int (0 + k * z)), m_Size = (f0, f1, f2 - k * z)\<rparr>"
    by (simp add: slab_def n)
  have "region_pixels img \<lparr>m_Index = (0, 0, int 0), m_Size = (f0, f1, k * z + (f2 - k * z))\<rparr> =
      region_pixels img \<lparr>m_Index = (0, 0, int 0), m_Size = (f0, f1, k * z)\<rparr> @
      region_pixels img \<lparr>m_Index = (0, 0, int (0 + k * z)), m_Size = (f0, f1, f2 - k * z)\<rparr>"
    by (rule region_pixels_stack)
  moreover have "k * z + (f2 - k * z) = f2"
    using le by simp
  ultimately have "region_pixels img (full_region (f0, f1, f2)) =
      region_pixels img \<lparr>m_Index = (0, 0, int 0), m_Size = (f0, f1, k * z)\<rparr> @
      region_pixels img (slab (f0, f1, f2) n z k)"
    by (simp add: full_region_def last)
  moreover have "[0..<n] = [0..<k] @ [k]"
    by (simp add: n)
  moreover have "concat (map (\<lambda>j. region_pixels img (slab (f0, f1, f2) n z j)) [0..<k]) =
      region_pixels img \<lparr>m_Index = (0, 0, int 0), m_Size = (f0, f1, k * z)\<rparr>"
    by (simp only: inner uniform_slabs_pixels)
  ultimately show ?thesis
    by (simp only: map_append concat_append list.map concat.simps append_Nil2)
qed

lemma streaming_test_success:
  assumes "streaming_test K env (f0, f1, f2) = Some (EXIT_SUCCESS, out)"
    and "f2 < 2 ^ 63"
  shows "out = map (\<lambda>j. (slab (f0, f1, f2) (min K f2) (to_unsigned_int (f2 div min K f2)) j,
                   region_pixels (stored_image env)
                     (slab (f0, f1, f2) (min K f2) (to_unsigned_int (f2 div min K f2)) j)))
               [0..<min K f2]"
    and "1 \<le> min K f2"
    and "(min K f2 - 1) * to_unsigned_int (f2 div min K f2) \<le> f2"
proof -
  let ?n = "min K f2"
  let ?z = "to_unsigned_int (f2 div ?n)"
  show n: "1 \<le> ?n"
    using assms(1) by (auto simp: streaming_test_def Let_def split: if_splits)
  have "?z \<le> f2 div ?n"
    by (simp add: to_unsigned_int_def)
  then have "(?n - 1) * ?z \<le> (?n - 1) * (f2 div ?n)"
    by (rule mult_le_mono2)
  also have "\<dots> \<le> ?n * (f2 div ?n)"
    by (rule mult_le_mono1) (rule diff_le_self)
  also have "\<dots> \<le> f2"
    by simp
  finally show le: "(?n - 1) * ?z \<le> f2" .
  have run: "pieces_loop env (f0, f1, f2) ?n ?z 0 0 0 [] = (EXIT_SUCCESS, out)"
    using assms(1) n by (auto simp: streaming_test_def Let_def split: if_splits)
  show "out = map (\<lambda>j. (slab (f0, f1, f2) ?n ?z j,
                   region_pixels (stored_image env) (slab (f0, f1, f2) ?n ?z j))) [0..<?n]"
  proof -
    have inv: "0 < ?n \<longrightarrow> (0::int) + int 0 = int (0 * ?z)"
      by simp
    show ?thesis
      using pieces_loop_success [OF run inv le assms(2)] by (simp only: append_Nil)
  qed
qed

lemma streaming_test_quiet:
  assumes "0 < K" and "0 < f2"
    and "\<forall>r. \<not> reader_throws env r" and "\<forall>r. \<not> writer_throws env r"
  shows "\<exists>out. streaming_test K env (f0, f1, f2) = Some (EXIT_SUCCESS, out)"
proof -
  let ?run = "pieces_loop env (f0, f1, f2) (min K f2) (to_unsigned_int (f2 div min K f2)) 0 0 0 []"
  have "fst ?run = EXIT_SUCCESS"
    by (rule pieces_loop_quiet [OF assms(3,4)])
  then have "?run = (EXIT_SUCCESS, snd ?run)"
    by (metis prod.collapse)
  moreover have "streaming_test K env (f0, f1, f2) = Some ?run"
    using assms(1,2) by (simp add: streaming_test_def Let_def)
  ultimately show ?thesis by auto
qed

lemma rest_is_quotient_plus_remainder:
  assumes "(1::nat) \<le> n"
  shows "f2 - (n - 1) * (f2 div n) = f2 div n + f2 mod n"
proof -
  obtain k where n: "n = Suc k"
    using assms by (cases n) simp_all
  define q where "q = f2 div Suc k"
  define r where "r = f2 mod Suc k"
  have "f2 = Suc k * q + r"
    unfolding q_def r_def by (rule mult_div_mod_eq [symmetric])
  then have "f2 = k * q + (q + r)"
    by simp
  then have "f2 - k * q = q + r"
    by simp
  then show ?thesis
    by (simp add: n q_def r_def)
qed

text \<open>
  C1 (as amended). The test's loop, asked for \<open>K\<close> pieces (\<open>1 \<le> K < 2 ^ 32\<close>) of a
  full region at index zero whose extent \<open>f2\<close> along the last axis is at least 1 and
  below \<open>2 ^ 63\<close>, with the quotient \<open>f2 div min K f2\<close> below \<open>2 ^ 32\<close> and no update
  throwing, ends with \<^verbatim>\<open>EXIT_SUCCESS\<close> having requested and written, in order,
  \<open>K\<close> pieces when \<open>K \<le> f2\<close> and \<open>f2\<close> pieces otherwise; the pieces are slabs along the
  last axis of the quotient's thickness, the last one thicker by the remainder of the
  division; none has extent zero along that axis; no lattice point lies in two of them;
  and a point lies in the full region exactly when it lies in one of them.
\<close>

theorem streaming_test_split:
  assumes "1 \<le> K" and "K < 2 ^ 32" and "0 < f2" and "f2 < 2 ^ 63"
    and "f2 div min K f2 < 2 ^ 32"
    and "\<forall>r. \<not> reader_throws env r" and "\<forall>r. \<not> writer_throws env r"
  shows "\<exists>out. streaming_test K env (f0, f1, f2) = Some (EXIT_SUCCESS, out) \<and>
      length out = (if K \<le> f2 then K else f2) \<and>
      (\<forall>j<length out. fst (out ! j) =
         \<lparr>m_Index = (0, 0, int (j * (f2 div length out))),
          m_Size = (f0, f1, if j = length out - 1
                            then f2 div length out + f2 mod length out
                            else f2 div length out)\<rparr>) \<and>
      (\<forall>j<length out. 0 < z_extent (fst (out ! j))) \<and>
      (\<forall>i j p. i < j \<and> j < length out \<longrightarrow>
         \<not> (IsInside (fst (out ! i)) p \<and> IsInside (fst (out ! j)) p)) \<and>
      (\<forall>p. IsInside (full_region (f0, f1, f2)) p =
         (\<exists>j<length out. IsInside (fst (out ! j)) p))"
proof -
  let ?n = "min K f2"
  let ?q = "f2 div ?n"
  obtain out where run: "streaming_test K env (f0, f1, f2) = Some (EXIT_SUCCESS, out)"
    using streaming_test_quiet [of K f2 env f0 f1] assms(1,3,6,7) by auto
  have z: "to_unsigned_int ?q = ?q"
    using assms(5) by (simp add: to_unsigned_int_def)
  note facts = streaming_test_success [OF run assms(4), unfolded z]
  have len: "length out = ?n"
    by (simp add: facts(1))
  have nth: "fst (out ! j) = slab (f0, f1, f2) ?n ?q j" if "j < ?n" for j
    using that by (simp add: facts(1))
  have n1: "1 \<le> ?n"
    by (rule facts(2))
  have qpos: "0 < ?q"
    using n1 by (simp add: div_greater_zero_iff)
  have rest: "f2 - (?n - 1) * ?q = ?q + f2 mod ?n"
    by (rule rest_is_quotient_plus_remainder [OF n1])
  have shape: "slab (f0, f1, f2) ?n ?q j =
       \<lparr>m_Index = (0, 0, int (j * ?q)),
        m_Size = (f0, f1, if j = ?n - 1 then ?q + f2 mod ?n else ?q)\<rparr>" for j
    using rest by (simp add: slab_def)
  have c1: "length out = (if K \<le> f2 then K else f2)"
    by (simp add: len min_def)
  have c2: "\<forall>j<length out. fst (out ! j) =
         \<lparr>m_Index = (0, 0, int (j * (f2 div length out))),
          m_Size = (f0, f1, if j = length out - 1
                            then f2 div length out + f2 mod length out
                            else f2 div length out)\<rparr>"
    unfolding len using nth shape by simp
  have c3: "\<forall>j<length out. 0 < z_extent (fst (out ! j))"
    unfolding len using nth shape qpos by (simp add: z_extent_def)
  have c4: "\<forall>i j p. i < j \<and> j < length out \<longrightarrow>
         \<not> (IsInside (fst (out ! i)) p \<and> IsInside (fst (out ! j)) p)"
  proof (intro allI impI)
    fix i j p
    assume ij: "i < j \<and> j < length out"
    then have "i < ?n" and "j < ?n"
      using len by simp_all
    then show "\<not> (IsInside (fst (out ! i)) p \<and> IsInside (fst (out ! j)) p)"
      using slabs_disjoint [of i j ?n f0 f1 f2 ?q p] ij len by (simp add: nth)
  qed
  have c5: "\<forall>p. IsInside (full_region (f0, f1, f2)) p =
         (\<exists>j<length out. IsInside (fst (out ! j)) p)"
    unfolding len slabs_cover [OF n1 facts(3)] using nth by auto
  show ?thesis
    using run c1 c2 c3 c4 c5 by blast
qed

theorem streaming_test_split_witness:
  "(\<exists>out. streaming_test 10 quiet_ramp (2, 2, 13) = Some (EXIT_SUCCESS, out) \<and>
      length out = 10 \<and>
      fst (out ! 0) = \<lparr>m_Index = (0, 0, 0), m_Size = (2, 2, 1)\<rparr> \<and>
      fst (out ! 9) = \<lparr>m_Index = (0, 0, 9), m_Size = (2, 2, 4)\<rparr>) \<and>
   (\<exists>out. streaming_test 10 quiet_ramp (2, 2, 3) = Some (EXIT_SUCCESS, out) \<and>
      length out = 3 \<and>
      fst (out ! 2) = \<lparr>m_Index = (0, 0, 2), m_Size = (2, 2, 1)\<rparr>)"
proof -
  have q: "\<forall>r. \<not> reader_throws quiet_ramp r" "\<forall>r. \<not> writer_throws quiet_ramp r"
    by (simp_all add: quiet_ramp_def)
  have a: "(1::nat) \<le> 10" "(10::nat) < 2 ^ 32" "(0::nat) < 13" "(13::nat) < 2 ^ 63"
    "(13::nat) div min 10 13 < 2 ^ 32" "(0::nat) < 3" "(3::nat) < 2 ^ 63"
    "(3::nat) div min 10 3 < 2 ^ 32"
    by simp_all
  have first: "\<exists>out. streaming_test 10 quiet_ramp (2, 2, 13) = Some (EXIT_SUCCESS, out) \<and>
      length out = 10 \<and>
      fst (out ! 0) = \<lparr>m_Index = (0, 0, 0), m_Size = (2, 2, 1)\<rparr> \<and>
      fst (out ! 9) = \<lparr>m_Index = (0, 0, 9), m_Size = (2, 2, 4)\<rparr>"
    using streaming_test_split [OF a(1,2,3,4,5) q, of 2 2] by fastforce
  have second: "\<exists>out. streaming_test 10 quiet_ramp (2, 2, 3) = Some (EXIT_SUCCESS, out) \<and>
      length out = 3 \<and>
      fst (out ! 2) = \<lparr>m_Index = (0, 0, 2), m_Size = (2, 2, 1)\<rparr>"
    using streaming_test_split [OF a(1,2,6,7,8) q, of 2 2] by fastforce
  show ?thesis
    using first second by blast
qed

theorem streaming_test_split_counterexample:
  "streaming_test 10 quiet_ramp (4, 4, 0) = None \<and>
   (\<exists>out. streaming_test 10 quiet_ramp (1, 1, 42949672960) = Some (EXIT_SUCCESS, out) \<and>
      length out = 10 \<and> z_extent (fst (out ! 0)) = 0)"
proof -
  have q: "\<forall>r. \<not> reader_throws quiet_ramp r" "\<forall>r. \<not> writer_throws quiet_ramp r"
    by (simp_all add: quiet_ramp_def)
  have none: "streaming_test 10 quiet_ramp (4, 4, 0) = None"
    by (simp add: streaming_test_def)
  obtain out where
    run: "streaming_test 10 quiet_ramp (1, 1, 42949672960) = Some (EXIT_SUCCESS, out)"
    using streaming_test_quiet [OF _ _ q, of 10 42949672960 1 1] by auto
  have small: "(42949672960::nat) < 2 ^ 63"
    by simp
  have n: "min 10 (42949672960::nat) = 10"
    by simp
  have z: "to_unsigned_int (42949672960 div 10) = 0"
    by (simp add: to_unsigned_int_def)
  note out = streaming_test_success(1) [OF run small, unfolded n z]
  have "length out = 10"
    by (simp only: out length_map length_upt)
  moreover have "out ! 0 = (slab (1, 1, 42949672960) 10 0 0,
      region_pixels (stored_image quiet_ramp) (slab (1, 1, 42949672960) 10 0 0))"
    by (simp add: out)
  then have "z_extent (fst (out ! 0)) = 0"
    by (simp add: z_extent_def slab_def)
  ultimately show ?thesis
    using none run by blast
qed

text \<open>
  C5 (as amended). For a full region at index zero with at least one and fewer than
  \<open>2 ^ 63\<close> slices along the last axis, and a number of pieces \<open>P\<close> asked for with
  \<open>1 \<le> P < 2 ^ 32\<close> (10 in the test): when no update throws, the test and the
  non-streamed run both end with \<^verbatim>\<open>EXIT_SUCCESS\<close>; and whenever both do, the bytes the
  test has written piece after piece are the bytes of the non-streamed run, the pieces
  are \<open>min P f2\<close> slabs, the last one reaching to the end of the full region, every
  point of the full region lies in one of them and no point lies in two.
\<close>

theorem streaming_round_trip:
  assumes "1 \<le> P" and "P < 2 ^ 32" and "0 < f2" and "f2 < 2 ^ 63"
  shows "((\<forall>r. \<not> reader_throws env r) \<and> (\<forall>r. \<not> writer_throws env r) \<longrightarrow>
           (\<exists>streamed whole.
              streaming_test P env (f0, f1, f2) = Some (EXIT_SUCCESS, streamed) \<and>
              non_streamed env (f0, f1, f2) = (EXIT_SUCCESS, whole))) \<and>
         (streaming_test P env (f0, f1, f2) = Some (EXIT_SUCCESS, streamed) \<and>
          non_streamed env (f0, f1, f2) = (EXIT_SUCCESS, whole) \<longrightarrow>
            file_bytes streamed = file_bytes whole \<and>
            length streamed = min P f2 \<and>
            (\<forall>j<length streamed. fst (streamed ! j) =
               slab (f0, f1, f2) (min P f2) (to_unsigned_int (f2 div min P f2)) j) \<and>
            z_extent (fst (last streamed)) =
               f2 - (length streamed - 1) * to_unsigned_int (f2 div min P f2) \<and>
            (\<forall>p. IsInside (full_region (f0, f1, f2)) p =
               (\<exists>j<length streamed. IsInside (fst (streamed ! j)) p)) \<and>
            (\<forall>i j p. i < j \<and> j < length streamed \<longrightarrow>
               \<not> (IsInside (fst (streamed ! i)) p \<and> IsInside (fst (streamed ! j)) p)))"
proof (intro conjI impI)
  assume q: "(\<forall>r. \<not> reader_throws env r) \<and> (\<forall>r. \<not> writer_throws env r)"
  then have "\<exists>out. streaming_test P env (f0, f1, f2) = Some (EXIT_SUCCESS, out)"
    using assms(1,3) by (intro streaming_test_quiet) simp_all
  moreover have "\<exists>whole. non_streamed env (f0, f1, f2) = (EXIT_SUCCESS, whole)"
    using q by (simp add: non_streamed_def reader_Update_def writer_Update_def Let_def)
  ultimately show "\<exists>streamed whole.
              streaming_test P env (f0, f1, f2) = Some (EXIT_SUCCESS, streamed) \<and>
              non_streamed env (f0, f1, f2) = (EXIT_SUCCESS, whole)"
    by auto
next
  let ?n = "min P f2"
  let ?z = "to_unsigned_int (f2 div ?n)"
  assume a: "streaming_test P env (f0, f1, f2) = Some (EXIT_SUCCESS, streamed) \<and>
          non_streamed env (f0, f1, f2) = (EXIT_SUCCESS, whole)"
  then have run: "streaming_test P env (f0, f1, f2) = Some (EXIT_SUCCESS, streamed)"
    by simp
  note facts = streaming_test_success [OF run assms(4)]
  have whole: "whole = [(full_region (f0, f1, f2),
      region_pixels (stored_image env) (full_region (f0, f1, f2)))]"
    using a by (auto simp: non_streamed_def reader_Update_def writer_Update_def Let_def
        split: if_splits)
  have len: "length streamed = ?n"
    by (simp add: facts(1))
  have nth: "fst (streamed ! j) = slab (f0, f1, f2) ?n ?z j" if "j < ?n" for j
    using that by (simp add: facts(1))
  have "map snd streamed =
      map (\<lambda>j. region_pixels (stored_image env) (slab (f0, f1, f2) ?n ?z j)) [0..<?n]"
    by (simp add: facts(1) comp_def)
  then have "file_bytes streamed = region_pixels (stored_image env) (full_region (f0, f1, f2))"
    using slabs_pixels [OF facts(2,3)] by (simp add: file_bytes_def)
  then show "file_bytes streamed = file_bytes whole"
    by (simp add: whole file_bytes_def)
  show "length streamed = ?n"
    by (rule len)
  show "\<forall>j<length streamed. fst (streamed ! j) = slab (f0, f1, f2) ?n ?z j"
    using nth len by simp
  have "streamed \<noteq> []"
    using len facts(2) by auto
  then have "last streamed = streamed ! (?n - 1)"
    using len by (simp add: last_conv_nth)
  moreover have lt: "?n - 1 < ?n"
    using facts(2) by linarith
  ultimately show "z_extent (fst (last streamed)) = f2 - (length streamed - 1) * ?z"
    using nth [OF lt] len by (simp add: z_extent_def slab_def)
  show "\<forall>p. IsInside (full_region (f0, f1, f2)) p =
               (\<exists>j<length streamed. IsInside (fst (streamed ! j)) p)"
    unfolding len slabs_cover [OF facts(2,3)] using nth by auto
  show "\<forall>i j p. i < j \<and> j < length streamed \<longrightarrow>
               \<not> (IsInside (fst (streamed ! i)) p \<and> IsInside (fst (streamed ! j)) p)"
  proof (intro allI impI)
    fix i j p
    assume ij: "i < j \<and> j < length streamed"
    then have "i < ?n" and "j < ?n"
      using len by simp_all
    then show "\<not> (IsInside (fst (streamed ! i)) p \<and> IsInside (fst (streamed ! j)) p)"
      using slabs_disjoint [of i j ?n f0 f1 f2 ?z p] ij len by (simp add: nth)
  qed
qed

theorem streaming_round_trip_witness:
  "\<exists>streamed whole.
     itkMetaImageStreamingWriterIOTest quiet_ramp (1, 1, 3) = Some (EXIT_SUCCESS, streamed) \<and>
     non_streamed quiet_ramp (1, 1, 3) = (EXIT_SUCCESS, whole) \<and>
     length streamed = 3 \<and>
     file_bytes whole = [0, 4, 8] \<and>
     file_bytes streamed = [0, 4, 8]"
proof -
  have a: "(1::nat) \<le> 10" "(10::nat) < 2 ^ 32" "0 < (3::nat)" "(3::nat) < 2 ^ 63"
    by simp_all
  have q: "(\<forall>r. \<not> reader_throws quiet_ramp r) \<and> (\<forall>r. \<not> writer_throws quiet_ramp r)"
    by (simp add: quiet_ramp_def)
  have "\<exists>streamed whole.
      streaming_test 10 quiet_ramp (1, 1, 3) = Some (EXIT_SUCCESS, streamed) \<and>
      non_streamed quiet_ramp (1, 1, 3) = (EXIT_SUCCESS, whole)"
    by (rule mp [OF conjunct1 [OF streaming_round_trip [OF a, of quiet_ramp 1 1]] q])
  then obtain streamed whole where
    run: "streaming_test 10 quiet_ramp (1, 1, 3) = Some (EXIT_SUCCESS, streamed) \<and>
      non_streamed quiet_ramp (1, 1, 3) = (EXIT_SUCCESS, whole)"
    by blast
  have spans: "span 0 3 = [0, 1, 2]" "span 0 (Suc 0) = [0]"
    by code_simp+
  have "non_streamed quiet_ramp (1, 1, 3) =
      (EXIT_SUCCESS, [(full_region (1, 1, 3), [0, 4, 8])])"
    by (simp add: spans non_streamed_def reader_Update_def writer_Update_def quiet_ramp_def
        full_region_def region_pixels_def ramp_def Let_def)
  then have whole: "file_bytes whole = [0, 4, 8]"
    using run by (auto simp: file_bytes_def)
  note rest = mp [OF conjunct2 [OF streaming_round_trip [OF a, of quiet_ramp 1 1 streamed whole]] run]
  have "file_bytes streamed = file_bytes whole"
    by (rule conjunct1 [OF rest])
  moreover have "length streamed = min 10 3"
    by (rule conjunct1 [OF conjunct2 [OF rest]])
  ultimately show ?thesis
    using run whole by (auto simp: itkMetaImageStreamingWriterIOTest_def)
qed

theorem streaming_round_trip_counterexample:
  "itkMetaImageStreamingWriterIOTest quiet_ramp (2, 3, 0) = None \<and>
   non_streamed quiet_ramp (2, 3, 0) = (EXIT_SUCCESS, [(full_region (2, 3, 0), [])]) \<and>
   file_bytes (snd (non_streamed quiet_ramp (2, 3, 0))) = []"
proof -
  have "span 0 0 = []"
    by (simp add: span_def)
  then show ?thesis
    by (simp add: itkMetaImageStreamingWriterIOTest_def streaming_test_def non_streamed_def
        reader_Update_def writer_Update_def quiet_ramp_def full_region_def region_pixels_def
        file_bytes_def Let_def)
qed

section \<open>Theorems: the update protocol\<close>

lemma axis_within_intersect:
  "0 < snd (axis_intersect a b) \<Longrightarrow> axis_within a (axis_intersect a b)"
  by (auto simp: axis_within_def axis_intersect_def Let_def max_def min_def split: if_splits)

lemma contains_intersect: "contains a (intersect a b)"
proof (cases "region_empty (intersect a b)")
  case True
  then show ?thesis by (simp add: contains_def)
next
  case False
  show ?thesis
  proof (cases "same_dimension a b")
    case True
    then have dims: "length (origin a) = length (extent a)" "length (origin b) = length (extent b)"
      "length (origin a) = length (origin b)"
      by (simp_all add: same_dimension_def)
    define X where "X = map2 axis_intersect (axes a) (axes b)"
    have i: "intersect a b = \<lparr>origin = map fst X, extent = map snd X\<rparr>"
      using True by (simp add: intersect_def X_def)
    have len: "length (axes a) = length (origin a)" "length (axes b) = length (origin a)"
      "length X = length (origin a)"
      using dims by (simp_all add: axes_def X_def)
    have nth: "X ! k = axis_intersect (axes a ! k) (axes b ! k)" if "k < length (origin a)" for k
      using that len by (simp add: X_def)
    have o: "origin (intersect a b) = map fst X" and e: "extent (intersect a b) = map snd X"
      by (simp_all add: i)
    have ax: "axes (intersect a b) = X"
      unfolding axes_def o e by (rule zip_map_fst_snd)
    have "\<not> list_ex (\<lambda>e. e \<le> 0) (map snd X)"
      using False by (simp add: region_empty_def e)
    then have pos: "0 < snd (X ! k)" if "k < length (origin a)" for k
      using that len(3) by (force simp: list_ex_iff in_set_conv_nth not_le)
    have "list_all2 axis_within (axes a) X"
      unfolding list_all2_conv_all_nth
    proof (intro conjI allI impI)
      show "length (axes a) = length X"
        by (simp add: len)
      fix k assume "k < length (axes a)"
      then have k: "k < length (origin a)"
        by (simp add: len)
      show "axis_within (axes a ! k) (X ! k)"
        using pos [OF k] unfolding nth [OF k] by (rule axis_within_intersect)
    qed
    then show ?thesis
      unfolding contains_def ax by simp
  next
    case not_same: False
    then have i: "intersect a b = \<lparr>origin = origin a, extent = map (\<lambda>e. 0) (origin a)\<rparr>"
      by (simp add: intersect_def)
    have "region_empty (intersect a b)"
      by (cases "origin a") (simp_all add: i region_empty_def)
    then show ?thesis
      using False by simp
  qed
qed

lemma contains_self: "contains r r"
  by (simp add: contains_def list_all2_conv_all_nth axis_within_def)

lemma mark_mono: "x \<in> M \<Longrightarrow> x \<in> mark ss k M"
  by (induction k arbitrary: M) simp_all

lemma target_in_closure: "t \<in> closure ss t"
  by (simp add: closure_def mark_mono del: mark.simps)

lemma target_in_visit_order: "t \<in> set (visit_order ss t)"
  by (simp add: visit_order_def target_in_closure del: upt_Suc)

lemma visit_order_bound: "i \<in> set (visit_order ss t) \<Longrightarrow> i \<le> t"
  by (auto simp: visit_order_def less_Suc_eq_le simp del: upt_Suc)

lemma enough_inputs:
  assumes "\<not> missing_required_input s"
  shows "number_of_required_inputs s \<le> length (filter (\<lambda>x. x \<noteq> None) (inputs s))"
proof -
  let ?n = "number_of_required_inputs s"
  have len: "?n \<le> length (inputs s)"
    and none: "None \<notin> set (take ?n (inputs s))"
    using assms by (simp_all add: missing_required_input_def list_ex_iff)
  have "x \<noteq> None" if "x \<in> set (take ?n (inputs s))" for x
    using that none by metis
  then have "filter (\<lambda>x. x \<noteq> None) (take ?n (inputs s)) = take ?n (inputs s)"
    unfolding filter_id_conv by blast
  then have "length (filter (\<lambda>x. x \<noteq> None) (take ?n (inputs s))) = ?n"
    using len by simp
  moreover have "inputs s = take ?n (inputs s) @ drop ?n (inputs s)"
    by simp
  then have "length (filter (\<lambda>x. x \<noteq> None) (inputs s)) =
      length (filter (\<lambda>x. x \<noteq> None) (take ?n (inputs s))) +
      length (filter (\<lambda>x. x \<noteq> None) (drop ?n (inputs s)))"
    by (metis filter_append length_append)
  ultimately show ?thesis by simp
qed

text \<open>
  C6. Update on a data object whose input closure holds a stage (the producer of the
  object itself included) with fewer inputs set than it requires raises
  \<open>ConfigurationError\<close> and leaves the pipeline as it was: nothing is added to the
  record of \<open>generateData\<close> calls.
\<close>

theorem missing_input_is_configuration_error:
  assumes "t < length (stages p)"
    and "i = t \<or> i \<in> set (visit_order (stages p) t)"
    and "length (filter (\<lambda>x. x \<noteq> None) (inputs (stages p ! i))) <
           number_of_required_inputs (stages p ! i)"
  shows "update p (t, k) r = (Some ConfigurationError, p) \<and>
         generated (snd (update p (t, k) r)) = generated p"
proof -
  have i: "i \<in> set (visit_order (stages p) t)"
    using assms(2) target_in_visit_order by auto
  have "missing_required_input (stages p ! i)"
    using assms(3) enough_inputs [of "stages p ! i"] by auto
  then have "list_ex (\<lambda>i. missing_required_input (stages p ! i)) (visit_order (stages p) t)"
    using i by (auto simp: list_ex_iff)
  then show ?thesis
    using assms(1) by (simp add: update_def Let_def)
qed

theorem missing_input_is_configuration_error_witness:
  "update half_connected (1, 0) (line 0 10) = (Some ConfigurationError, half_connected) \<and>
   generated (snd (update half_connected (1, 0) (line 0 10))) = [] \<and>
   update eigen_two_inputs (3, 0) (box (2, 3) (4, 5)) = (Some ConfigurationError, eigen_two_inputs)"
proof -
  have t: "1 < length (stages half_connected)"
    by (simp add: half_connected_def)
  have few: "length (filter (\<lambda>x. x \<noteq> None) (inputs (stages half_connected ! 1))) <
      number_of_required_inputs (stages half_connected ! 1)"
    by (simp add: half_connected_def default_stage_def)
  have t': "3 < length (stages eigen_two_inputs)"
    by (simp add: eigen_two_inputs_def eigen_pipeline_def)
  have few': "length (filter (\<lambda>x. x \<noteq> None) (inputs (stages eigen_two_inputs ! 3))) <
      number_of_required_inputs (stages eigen_two_inputs ! 3)"
    by (simp add: eigen_two_inputs_def eigen_pipeline_def EigenAnalysis2DImageFilter_def
        default_stage_def)
  have "generated half_connected = []"
    by (simp add: half_connected_def)
  then show ?thesis
    using missing_input_is_configuration_error [of 1 half_connected 1 0 "line 0 10"] t few
      missing_input_is_configuration_error [of 3 eigen_two_inputs 3 0 "box (2, 3) (4, 5)"] t' few'
    by simp
qed

text \<open>Lists of lists updated in place.\<close>

lemma list_all_update_always:
  assumes "list_all Q xs" and "\<And>y. Q (g y)"
  shows "list_all Q (xs[i := g (xs ! i)])"
  using assms by (auto simp: list_all_iff dest!: set_update_subset_insert [THEN subsetD])

lemma list_all_update_kept:
  assumes "list_all Q xs" and "\<And>y. Q y \<Longrightarrow> Q (g y)"
  shows "list_all Q (xs[i := g (xs ! i)])"
proof (cases "i < length xs")
  case True
  then have "Q (xs ! i)"
    using assms(1) by (simp add: list_all_length)
  then have "Q (g (xs ! i))"
    by (rule assms(2))
  then show ?thesis
    using assms(1) by (auto simp: list_all_iff dest!: set_update_subset_insert [THEN subsetD])
next
  case False
  then show ?thesis
    using assms(1) by (simp add: list_update_beyond)
qed

lemma nth_list_update_total:
  "xs[i := v] ! j = (if i = j \<and> j < length xs then v else xs ! j)"
  by (cases "i = j") (simp_all add: list_update_beyond)

text \<open>Every step keeps the requested regions within the largest possible regions.\<close>

lemma setLargestPossibleRegion_within: "request_within (setLargestPossibleRegion r d)"
  by (simp add: request_within_def setLargestPossibleRegion_def getLargestPossibleRegion_def
      getRequestedRegion_def contains_intersect)

lemma setRequestedRegion_within:
  "request_within d \<Longrightarrow>
   request_within (case setRequestedRegion r d of Inl e \<Rightarrow> d | Inr d' \<Rightarrow> d')"
  by (simp add: request_within_def setRequestedRegion_def getLargestPossibleRegion_def
      getRequestedRegion_def)

lemma setBufferedRegion_within: "request_within d \<Longrightarrow> request_within (setBufferedRegion r d)"
  by (simp add: request_within_def setBufferedRegion_def getLargestPossibleRegion_def
      getRequestedRegion_def)

lemma request_outputs_within: "list_all request_within (request_outputs r outs)"
  by (simp add: request_outputs_def list_all_iff request_within_def getLargestPossibleRegion_def
      getRequestedRegion_def contains_intersect)

lemma modify_within:
  assumes "all_within p" and "\<And>d. request_within d \<Longrightarrow> request_within (f d)"
  shows "all_within (modify ref f p)"
proof -
  obtain i k where ref: "ref = (i, k)" by (cases ref)
  have inner: "list_all request_within (ys[k := f (ys ! k)])" if "list_all request_within ys" for ys
    using that assms(2) by (rule list_all_update_kept)
  have "list_all (list_all request_within)
      ((objects p)[i := (\<lambda>ys. ys[k := f (ys ! k)]) (objects p ! i)])"
    using assms(1) inner
      list_all_update_kept [where Q = "list_all request_within" and xs = "objects p"
        and g = "\<lambda>ys. ys[k := f (ys ! k)]" and i = i]
    by (simp add: all_within_def)
  then show ?thesis
    by (simp add: modify_def ref all_within_def)
qed

lemma information_step_within:
  assumes "all_within p"
  shows "all_within (information_step i p)"
proof -
  have "list_all request_within
      (map (\<lambda>(m, d). (setLargestPossibleRegion (h m) d)\<lparr>modification_time := c\<rparr>) (enumerate 0 ys))"
    for h c ys
    using setLargestPossibleRegion_within
    by (auto simp: list_all_iff request_within_def getLargestPossibleRegion_def
        getRequestedRegion_def)
  then show ?thesis
    using assms list_all_update_always [of "list_all request_within" "objects p"]
    by (simp add: information_step_def Let_def all_within_def list_all_length nth_list_update_total)
qed

lemma request_input_within:
  assumes "list_all (list_all request_within) ds"
  shows "list_all (list_all request_within) (request_input s r slot ds)"
proof -
  obtain k x where slot: "slot = (k, x)" by (cases slot)
  show ?thesis
  proof (cases x)
    case None
    then show ?thesis using assms slot by (simp add: request_input_def)
  next
    case (Some ref)
    obtain j m where ref: "ref = (j, m)" by (cases ref)
    have "list_all (list_all request_within)
        (ds[j := request_outputs (generateInputRequestedRegion s r k) (ds ! j)])"
      using assms request_outputs_within
        list_all_update_always [where Q = "list_all request_within" and xs = ds
          and g = "request_outputs (generateInputRequestedRegion s r k)" and i = j]
      by simp
    then show ?thesis
      by (simp add: request_input_def slot Some ref)
  qed
qed

lemma request_inputs_within:
  "list_all (list_all request_within) ds \<Longrightarrow>
   list_all (list_all request_within) (fold (request_input s r) slots ds)"
  by (induction slots arbitrary: ds) (simp_all add: request_input_within)

lemma request_step_within:
  assumes "all_within p"
  shows "all_within (request_step i p)"
proof (cases "objects p ! i")
  case Nil
  then show ?thesis using assms by (simp add: request_step_def)
next
  case (Cons d outs)
  define e where "e = enlargeOutputRequestedRegion (stages p ! i) (largest_possible_region d)
      (requested_region d)"
  have "list_all (list_all request_within) ((objects p)[i := request_outputs e (objects p ! i)])"
    using assms request_outputs_within
      list_all_update_always [where Q = "list_all request_within" and xs = "objects p"
        and g = "request_outputs e" and i = i]
    by (simp add: all_within_def)
  then show ?thesis
    by (simp add: request_step_def Cons Let_def all_within_def request_inputs_within e_def)
qed

lemma request_phase_within:
  "all_within p \<Longrightarrow> all_within (fold request_step order p)"
  by (induction order arbitrary: p) (simp_all add: request_step_within)

lemma information_phase_within:
  "all_within p \<Longrightarrow> all_within (fold information_step order p)"
  by (induction order arbitrary: p) (simp_all add: information_step_within)

lemma data_step_within:
  assumes "all_within p"
  shows "all_within (snd (data_step i p))"
proof -
  have kept: "list_all request_within
      (map (\<lambda>(m, d). d\<lparr>pipeline_time := c, buffered_region := b m d\<rparr>) (enumerate 0 ys))"
    if "list_all request_within ys" for c b ys
    using that
    by (auto simp: list_all_iff request_within_def getLargestPossibleRegion_def
        getRequestedRegion_def in_set_enumerate_eq)
  have "list_all (list_all request_within)
      ((objects p)[i := (\<lambda>ys. map (\<lambda>(m, d). d\<lparr>pipeline_time := c, buffered_region := b m d\<rparr>)
         (enumerate 0 ys)) (objects p ! i)])" for c b
    using assms kept
      list_all_update_kept [where Q = "list_all request_within" and xs = "objects p"
        and g = "\<lambda>ys. map (\<lambda>(m, d). d\<lparr>pipeline_time := c, buffered_region := b m d\<rparr>)
         (enumerate 0 ys)" and i = i]
    by (simp add: all_within_def)
  then show ?thesis
    using assms
    by (simp add: data_step_def Let_def all_within_def split: option.splits)
qed

lemma data_phase_within:
  "all_within p \<Longrightarrow> all_within (snd (data_phase order p))"
proof (induction order arbitrary: p)
  case Nil
  then show ?case by simp
next
  case (Cons i order)
  obtain e1 p1 where step: "data_step i p = (e1, p1)"
    by (cases "data_step i p")
  have p1: "all_within p1"
    using data_step_within [OF Cons.prems, of i] step by simp
  show ?case
    using Cons.IH [OF p1] p1 step by (cases e1) simp_all
qed

lemma update_within:
  assumes "all_within p"
  shows "all_within (snd (update p target r))"
proof -
  obtain t k where target: "target = (t, k)" by (cases target)
  let ?order = "visit_order (stages p) t"
  let ?p1 = "fold information_step ?order p"
  have p1: "all_within ?p1"
    using assms by (rule information_phase_within)
  have "all_within (?p1\<lparr>objects := (objects ?p1)[t := (request_outputs r (objects ?p1 ! t))[k := d]]\<rparr>)"
    if "setRequestedRegion r (objects ?p1 ! t ! k) = Inr d" for d
  proof -
    have d: "request_within d"
      using that
      by (auto simp: setRequestedRegion_def request_within_def getLargestPossibleRegion_def
          getRequestedRegion_def split: if_splits)
    have "list_all request_within ((request_outputs r ys)[k := d])" for ys
      using request_outputs_within [of r ys] d
      by (auto simp: list_all_iff dest!: set_update_subset_insert [THEN subsetD])
    then show ?thesis
      using p1
        list_all_update_always [where Q = "list_all request_within" and xs = "objects ?p1"
          and g = "\<lambda>ys. (request_outputs r ys)[k := d]" and i = t]
      by (simp add: all_within_def)
  qed
  then show ?thesis
    using assms p1
    by (auto simp: update_def target Let_def request_phase_within data_phase_within
        split: sum.splits)
qed

lemma perform_within:
  assumes "all_within p"
  shows "all_within (perform a p)"
proof (cases a)
  case (SetLargest ref r)
  then show ?thesis
    using assms by (simp add: modify_within setLargestPossibleRegion_within)
next
  case (SetRequested ref r)
  then show ?thesis
    using assms modify_within [OF assms, of "\<lambda>d. case setRequestedRegion r d of Inl e \<Rightarrow> d | Inr d' \<Rightarrow> d'" ref]
      setRequestedRegion_within
    by simp
next
  case (SetBuffered ref r)
  then show ?thesis
    using assms by (simp add: modify_within setBufferedRegion_within)
next
  case (Reconfigure ss)
  then show ?thesis
    using assms by (simp add: all_within_def)
next
  case (Update ref r)
  then show ?thesis
    using assms by (simp add: update_within)
next
  case (InformationStep i)
  then show ?thesis
    using assms by (simp add: information_step_within)
next
  case (RequestStep i)
  then show ?thesis
    using assms by (simp add: request_step_within)
next
  case (DataStep i)
  then show ?thesis
    using assms by (simp add: data_step_within)
qed

lemma run_within: "all_within p \<Longrightarrow> all_within (run acts p)"
  unfolding run_def by (induction acts arbitrary: p) (simp_all add: perform_within)

lemma new_data_object_within: "request_within new_data_object"
  by (simp add: request_within_def new_data_object_def getLargestPossibleRegion_def
      getRequestedRegion_def contains_self)

lemma shape_update:
  assumes "\<And>ys. length (g ys) = length ys"
  shows "map length (xss[i := g (xss ! i)]) = map length xss"
proof (cases "i < length xss")
  case True
  have "map length (xss[i := g (xss ! i)]) = (map length xss)[i := length (g (xss ! i))]"
    by (rule map_update)
  also have "\<dots> = (map length xss)[i := map length xss ! i]"
    using True assms by simp
  also have "\<dots> = map length xss"
    by (rule list_update_id)
  finally show ?thesis .
next
  case False
  then show ?thesis by (simp add: list_update_beyond)
qed

lemma information_step_shape: "shape (information_step i p) = shape p"
  using shape_update [where g = "\<lambda>ys. map (\<lambda>(m, d).
      (setLargestPossibleRegion
         (generateOutputInformation (stages p ! i)
            (map (map_option getLargestPossibleRegion) (input_objects p (stages p ! i))) m) d)
      \<lparr>modification_time := Suc (global_clock p)\<rparr>) (enumerate 0 ys)" and xss = "objects p" and i = i]
  by (simp add: information_step_def Let_def shape_def)

lemma information_step_stages: "stages (information_step i p) = stages p"
  by (simp add: information_step_def Let_def)

lemma information_phase_frame:
  "shape (fold information_step order p) = shape p"
  "stages (fold information_step order p) = stages p"
  by (induction order arbitrary: p) (simp_all add: information_step_shape information_step_stages)

lemma request_input_shape: "map length (request_input s r slot ds) = map length ds"
proof -
  obtain k x where slot: "slot = (k, x)" by (cases slot)
  show ?thesis
  proof (cases x)
    case None
    then show ?thesis by (simp add: request_input_def slot)
  next
    case (Some ref)
    obtain j m where ref: "ref = (j, m)" by (cases ref)
    show ?thesis
      using shape_update [where g = "request_outputs (generateInputRequestedRegion s r k)"
          and xss = ds and i = j]
      by (simp add: request_input_def slot Some ref request_outputs_def)
  qed
qed

lemma request_inputs_shape: "map length (fold (request_input s r) slots ds) = map length ds"
  by (induction slots arbitrary: ds) (simp_all add: request_input_shape)

lemma request_step_shape: "shape (request_step i p) = shape p"
proof (cases "objects p ! i")
  case Nil
  then show ?thesis by (simp add: request_step_def)
next
  case (Cons d outs)
  show ?thesis
    using shape_update [where g = "request_outputs
          (enlargeOutputRequestedRegion (stages p ! i) (largest_possible_region d) (requested_region d))"
        and xss = "objects p" and i = i]
    by (simp add: request_step_def Cons Let_def shape_def request_inputs_shape request_outputs_def)
qed

lemma request_step_stages: "stages (request_step i p) = stages p"
  by (cases "objects p ! i") (simp_all add: request_step_def Let_def)

lemma request_phase_frame:
  "shape (fold request_step order p) = shape p"
  "stages (fold request_step order p) = stages p"
  by (induction order arbitrary: p) (simp_all add: request_step_shape request_step_stages)

lemma data_step_frame:
  assumes "data_step i p = (e, p')"
  shows "shape p' = shape p" and "stages p' = stages p"
proof -
  have "map length ((objects p)[i := (\<lambda>ys. map (\<lambda>(m, d). d\<lparr>pipeline_time := c,
        buffered_region := b m d\<rparr>) (enumerate 0 ys)) (objects p ! i)]) = map length (objects p)"
    for c b
    by (rule shape_update) simp
  then show "shape p' = shape p"
    using assms by (auto simp: data_step_def Let_def shape_def split: if_splits option.splits)
  show "stages p' = stages p"
    using assms by (auto simp: data_step_def Let_def split: if_splits option.splits)
qed

lemma at_least_contains: "contains (at_least bs m r) r"
  by (simp add: at_least_def contains_self)

lemma data_step_covers:
  assumes "data_step i p = (None, p')" and "i < length (objects p)"
  shows "list_all buffer_covers (objects p' ! i)"
proof (cases "out_of_date p i")
  case True
  show ?thesis
  proof (cases "generateData (stages p ! i) (input_objects p (stages p ! i)) (objects p ! i)")
    case None
    then show ?thesis
      using assms(1) True by (simp add: data_step_def Let_def)
  next
    case (Some filled)
    have p': "objects p' = (objects p)[i :=
        map (\<lambda>(m, d). d\<lparr>pipeline_time := global_clock p,
                        buffered_region :=
                          at_least (map buffered_region filled) m (requested_region d)\<rparr>)
            (enumerate 0 (objects p ! i))]"
      using assms(1) True Some by (auto simp: data_step_def Let_def)
    show ?thesis
      using assms(2)
      by (auto simp: p' list_all_iff buffer_covers_def getBufferedRegion_def
          getRequestedRegion_def at_least_contains)
  qed
next
  case False
  then have "p' = p"
    using assms(1) by (simp add: data_step_def Let_def)
  then show ?thesis
    using False
    by (auto simp: out_of_date_def Let_def list_all_iff list_ex_iff buffer_covers_def
        getBufferedRegion_def getRequestedRegion_def)
qed

lemma data_step_other:
  assumes "data_step i p = (e, p')" and "j \<noteq> i"
  shows "objects p' ! j = objects p ! j"
  using assms by (auto simp: data_step_def Let_def split: if_splits option.splits)

lemma shape_length: "shape p' = shape p \<Longrightarrow> length (objects p') = length (objects p)"
  unfolding shape_def by (rule map_eq_imp_length_eq)

lemma data_phase_frame:
  assumes "data_phase order p = (e, p')"
  shows "shape p' = shape p \<and> stages p' = stages p"
  using assms
proof (induction order arbitrary: p)
  case Nil
  then show ?case by simp
next
  case (Cons i order)
  obtain e1 p1 where step: "data_step i p = (e1, p1)"
    by (cases "data_step i p")
  note f = data_step_frame [OF step]
  show ?case
  proof (cases e1)
    case None
    then have "data_phase order p1 = (e, p')"
      using Cons.prems step by simp
    then show ?thesis
      using Cons.IH [of p1] f by simp
  next
    case (Some err)
    then have "p' = p1"
      using Cons.prems step by simp
    then show ?thesis using f by simp
  qed
qed

lemma data_phase_covers:
  assumes "data_phase order p = (None, p')"
    and "list_all buffer_covers (objects p ! j) \<or> (j \<in> set order \<and> j < length (objects p))"
  shows "list_all buffer_covers (objects p' ! j)"
  using assms
proof (induction order arbitrary: p)
  case Nil
  then show ?case by simp
next
  case (Cons i order)
  obtain e1 p1 where step: "data_step i p = (e1, p1)"
    by (cases "data_step i p")
  have e1: "e1 = None"
    using Cons.prems(1) step by (cases e1) simp_all
  then have rest: "data_phase order p1 = (None, p')"
    using Cons.prems(1) step by simp
  have len: "length (objects p1) = length (objects p)"
    using data_step_frame(1) [OF step] by (rule shape_length)
  have "list_all buffer_covers (objects p1 ! j) \<or> (j \<in> set order \<and> j < length (objects p1))"
  proof (cases "j = i")
    case True
    show ?thesis
    proof (cases "i < length (objects p)")
      case True
      then show ?thesis
        using data_step_covers [of i p p1] step e1 \<open>j = i\<close> by simp
    next
      case False
      then have "objects p1 ! i = objects p ! i"
        using step by (auto simp: data_step_def Let_def list_update_beyond
            split: if_splits option.splits)
      then show ?thesis
        using Cons.prems(2) False \<open>j = i\<close> len by auto
    qed
  next
    case False
    then show ?thesis
      using Cons.prems(2) data_step_other [OF step False] len by auto
  qed
  then show ?case
    using Cons.IH [OF rest] by simp
qed

lemma nth_shape: "shape p' = shape p \<Longrightarrow> i < length (objects p) \<Longrightarrow>
    length (objects p' ! i) = length (objects p ! i)"
  unfolding shape_def by (metis length_map nth_map)

lemma update_covers:
  assumes "length (objects p) = length (stages p)" and "update p (t, k) r = (None, p')"
  shows "t < length (stages p)" and "k < length (objects p' ! t)"
    and "length (objects p') = length (objects p)"
    and "\<And>i. i \<in> set (visit_order (stages p) t) \<Longrightarrow> list_all buffer_covers (objects p' ! i)"
proof -
  let ?order = "visit_order (stages p) t"
  let ?p1 = "fold information_step ?order p"
  show t: "t < length (stages p)"
    using assms(2) by (auto simp: update_def split: if_splits)
  have k: "k < length (objects p ! t)"
    using assms(2) t by (auto simp: update_def Let_def split: if_splits)
  obtain d where d: "setRequestedRegion r (objects ?p1 ! t ! k) = Inr d"
    and run: "data_phase ?order
        (fold request_step (rev ?order)
           (?p1\<lparr>objects := (objects ?p1)[t := (request_outputs r (objects ?p1 ! t))[k := d]]\<rparr>))
        = (None, p')"
    using assms(2) t
    by (auto simp: update_def Let_def split: if_splits sum.splits)
  let ?p1' = "?p1\<lparr>objects := (objects ?p1)[t := (request_outputs r (objects ?p1 ! t))[k := d]]\<rparr>"
  let ?p2 = "fold request_step (rev ?order) ?p1'"
  have s1: "shape ?p1 = shape p"
    by (rule information_phase_frame)
  have "map length ((objects ?p1)[t := (\<lambda>ys. (request_outputs r ys)[k := d]) (objects ?p1 ! t)])
      = map length (objects ?p1)"
    by (rule shape_update) (simp add: request_outputs_def)
  then have s1': "shape ?p1' = shape p"
    using s1 by (simp add: shape_def)
  have s2: "shape ?p2 = shape p"
    using s1' by (simp add: request_phase_frame)
  have s3: "shape p' = shape p"
    using data_phase_frame [OF run] s2 by simp
  have len2: "length (objects ?p2) = length (stages p)"
    using shape_length [OF s2] assms(1) by simp
  show "k < length (objects p' ! t)"
    using nth_shape [OF s3, of t] t k assms(1) by simp
  show "length (objects p') = length (objects p)"
    using s3 by (rule shape_length)
  fix i assume i: "i \<in> set ?order"
  then have "i < length (objects ?p2)"
    using visit_order_bound [OF i] t len2 by simp
  then show "list_all buffer_covers (objects p' ! i)"
    using data_phase_covers [OF run, of i] i by simp
qed

text \<open>
  What \<^verbatim>\<open>EigenAnalysis2DImageFilter::GenerateData\<close> does to the regions: the outputs
  hold the first input's buffered region, and cover the region of the pixel loop exactly
  when that buffered region contains it.
\<close>

lemma EigenAnalysis2DImageFilter_GenerateData_regions:
  assumes "EigenAnalysis2DImageFilter_GenerateData inputPtr1 inputPtr2 inputPtr3
             (outputPtr1, outputPtr2, outputPtr3) = ((a, b, c), region)"
  shows "getBufferedRegion a = getBufferedRegion inputPtr1"
    and "getBufferedRegion b = getBufferedRegion inputPtr1"
    and "getBufferedRegion c = getBufferedRegion inputPtr1"
    and "getRequestedRegion a = getRequestedRegion outputPtr1"
    and "getRequestedRegion b = getRequestedRegion outputPtr2"
    and "getRequestedRegion c = getRequestedRegion outputPtr3"
    and "region = getRequestedRegion outputPtr1"
    and "buffer_covers a = contains (getBufferedRegion inputPtr1) region"
  using assms
  by (auto simp: EigenAnalysis2DImageFilter_GenerateData_def Let_def setBufferedRegion_def
      getBufferedRegion_def getRequestedRegion_def buffer_covers_def)

text \<open>
  C4. In a pipeline whose data objects are as created, whatever is done afterwards
  (setters of the data objects, reconfiguration of the stages, updates that succeed or
  fail, and the single steps of an update), every data object's requested region is
  contained in its largest possible region at every moment; and after any successful
  update of a well-formed pipeline the data object asked for, and every data object of
  its input closure, has a buffered region that contains its requested region.
\<close>

theorem update_region_containment:
  assumes "\<forall>outs \<in> set (objects p). \<forall>d \<in> set outs. d = new_data_object"
  shows
    "(\<forall>outs \<in> set (objects (run acts p)). \<forall>d \<in> set outs.
        contains (getLargestPossibleRegion d) (getRequestedRegion d)) \<and>
     (well_formed (run acts p) \<and> update (run acts p) (t, k) r = (None, p') \<longrightarrow>
        t \<in> set (visit_order (stages (run acts p)) t) \<and> k < length (objects p' ! t) \<and>
        contains (getBufferedRegion (objects p' ! t ! k)) (getRequestedRegion (objects p' ! t ! k)) \<and>
        (\<forall>i \<in> set (visit_order (stages (run acts p)) t). \<forall>d \<in> set (objects p' ! i).
           contains (getBufferedRegion d) (getRequestedRegion d) \<and>
           contains (getLargestPossibleRegion d) (getRequestedRegion d)))"
proof (intro conjI impI)
  let ?q = "run acts p"
  have "all_within p"
    using assms new_data_object_within by (auto simp: all_within_def list_all_iff)
  then have q: "all_within ?q"
    by (rule run_within)
  then show "\<forall>outs \<in> set (objects ?q). \<forall>d \<in> set outs.
      contains (getLargestPossibleRegion d) (getRequestedRegion d)"
    by (simp add: all_within_def list_all_iff request_within_def)
  assume a: "well_formed ?q \<and> update ?q (t, k) r = (None, p')"
  then have len: "length (objects ?q) = length (stages ?q)"
    and run: "update ?q (t, k) r = (None, p')"
    by (simp_all add: well_formed_def)
  note c = update_covers [OF len run]
  show "t \<in> set (visit_order (stages ?q) t)"
    by (rule target_in_visit_order)
  then have tc: "list_all buffer_covers (objects p' ! t)"
    by (rule c(4))
  show k: "k < length (objects p' ! t)"
    by (rule c(2))
  show "contains (getBufferedRegion (objects p' ! t ! k)) (getRequestedRegion (objects p' ! t ! k))"
    using tc k by (simp add: list_all_length buffer_covers_def)
  have "all_within (snd (update ?q (t, k) r))"
    using q by (rule update_within)
  then have w: "all_within p'"
    using run by simp
  have len': "length (objects p') = length (stages ?q)"
    using c(3) len by simp
  show "\<forall>i \<in> set (visit_order (stages ?q) t). \<forall>d \<in> set (objects p' ! i).
           contains (getBufferedRegion d) (getRequestedRegion d) \<and>
           contains (getLargestPossibleRegion d) (getRequestedRegion d)"
  proof (intro ballI conjI)
    fix i d
    assume i: "i \<in> set (visit_order (stages ?q) t)" and d: "d \<in> set (objects p' ! i)"
    show "contains (getBufferedRegion d) (getRequestedRegion d)"
      using c(4) [OF i] d by (simp add: list_all_iff buffer_covers_def)
    have "i < length (objects p')"
      using visit_order_bound [OF i] c(1) len' by simp
    then have "list_all request_within (objects p' ! i)"
      using w by (simp add: all_within_def list_all_length)
    then show "contains (getLargestPossibleRegion d) (getRequestedRegion d)"
      using d by (simp add: list_all_iff request_within_def)
  qed
qed

lemma eigen_pipeline_created: "\<forall>outs \<in> set (objects eigen_pipeline). \<forall>d \<in> set outs. d = new_data_object"
  by (simp add: eigen_pipeline_def EigenAnalysis2DImageFilter_outputs_def)

lemma eigen_pipeline_well_formed: "well_formed (run calls eigen_pipeline)"
  by code_simp

lemma eigen_pipeline_update:
  "fst (update (run calls eigen_pipeline) (3, 1) (box (2, 3) (4, 5))) = None"
  by code_simp

lemma eigen_pipeline_clipped:
  "getRequestedRegion (objects (run calls eigen_pipeline) ! 0 ! 0) = box (0, 0) (5, 5)"
  by code_simp

lemma eigen_pipeline_regions:
  "map (map (\<lambda>d. (getLargestPossibleRegion d, getBufferedRegion d, getRequestedRegion d)))
     (objects (snd (update (run calls eigen_pipeline) (3, 1) (box (2, 3) (4, 5))))) =
   (let d = (box (0, 0) (10, 10), box (0, 0) (10, 10), box (2, 3) (4, 5))
    in [[d], [d], [d], [d, d, d]])"
  by code_simp

theorem update_region_containment_witness:
  "getRequestedRegion (objects (run calls eigen_pipeline) ! 0 ! 0) = box (0, 0) (5, 5) \<and>
   fst (update (run calls eigen_pipeline) (3, 1) (box (2, 3) (4, 5))) = None \<and>
   map (map (\<lambda>d. (getLargestPossibleRegion d, getBufferedRegion d, getRequestedRegion d)))
     (objects (snd (update (run calls eigen_pipeline) (3, 1) (box (2, 3) (4, 5))))) =
   (let d = (box (0, 0) (10, 10), box (0, 0) (10, 10), box (2, 3) (4, 5))
    in [[d], [d], [d], [d, d, d]]) \<and>
   list_all (\<lambda>i. list_all (\<lambda>d. contains (getBufferedRegion d) (getRequestedRegion d) \<and>
                              contains (getLargestPossibleRegion d) (getRequestedRegion d))
               (objects (snd (update (run calls eigen_pipeline) (3, 1) (box (2, 3) (4, 5)))) ! i))
     [0, 1, 2, 3]"
proof -
  let ?q = "run calls eigen_pipeline"
  let ?p' = "snd (update ?q (3, 1) (box (2, 3) (4, 5)))"
  have run: "update ?q (3, 1) (box (2, 3) (4, 5)) = (None, ?p')"
    using eigen_pipeline_update by (metis prod.collapse)
  have order: "visit_order (stages ?q) 3 = [0, 1, 2, 3]"
    by code_simp
  note c = update_region_containment [OF eigen_pipeline_created, of calls 3 1 "box (2, 3) (4, 5)" ?p']
  have "\<forall>i \<in> set (visit_order (stages ?q) 3). \<forall>d \<in> set (objects ?p' ! i).
      contains (getBufferedRegion d) (getRequestedRegion d) \<and>
      contains (getLargestPossibleRegion d) (getRequestedRegion d)"
    using c eigen_pipeline_well_formed run by blast
  then have covered: "list_all (\<lambda>i. list_all (\<lambda>d. contains (getBufferedRegion d) (getRequestedRegion d) \<and>
                              contains (getLargestPossibleRegion d) (getRequestedRegion d))
               (objects ?p' ! i)) [0, 1, 2, 3]"
    unfolding order list_all_iff .
  show ?thesis
    using eigen_pipeline_clipped eigen_pipeline_update eigen_pipeline_regions covered
    by (intro conjI)
qed

end
